theory Spec2Isabelle
  imports Main "HOL-Library.Char_ord" "HOL-Library.List_Lexorder" "HOL-Library.Sublist"
begin

section \<open>Strings and numbers of the host language\<close>

text \<open>
  A JavaScript string is modelled as a \<^typ>\<open>string\<close>: one \<^typ>\<open>char\<close> per code unit,
  for the code units below 256. Every character the program tests for (letters, digits,
  dots, slashes, the backslash, the null byte, the newline) lies in that range.
\<close>

definition NUL :: char where
  "NUL = CHR 0x00"

definition NEWLINE :: char where
  "NEWLINE = CHR 0x0A"

definition BACKSLASH :: char where
  "BACKSLASH = CHR 0x5C"

text \<open>\<^verbatim>\<open>String.prototype.includes\<close>: does \<open>sub\<close> occur in \<open>s\<close>?\<close>

fun js_includes :: "string \<Rightarrow> string \<Rightarrow> bool" where
  "js_includes [] sub = (sub = [])"
| "js_includes (c # cs) sub = (prefix sub (c # cs) \<or> js_includes cs sub)"

text \<open>\<^verbatim>\<open>String.prototype.startsWith\<close> is \<^const>\<open>prefix\<close> with the arguments swapped.\<close>

definition startsWith :: "string \<Rightarrow> string \<Rightarrow> bool" where
  "startsWith s p = prefix p s"

text \<open>\<^verbatim>\<open>Array.prototype.join\<close> on strings.\<close>

fun js_join :: "string \<Rightarrow> string list \<Rightarrow> string" where
  "js_join sep [] = []"
| "js_join sep [x] = x"
| "js_join sep (x # y # ys) = x @ sep @ js_join sep (y # ys)"

text \<open>A number of type \<^typ>\<open>nat\<close> rendered in a template string (decimal digits).\<close>

fun show_nat :: "nat \<Rightarrow> string" where
  "show_nat n =
     (if n < 10 then [''0123456789'' ! n]
      else show_nat (n div 10) @ [''0123456789'' ! (n mod 10)])"

text \<open>JavaScript truthiness of a string: the empty string is falsy.\<close>

definition truthy :: "string \<Rightarrow> bool" where
  "truthy s = (s \<noteq> [])"

text \<open>\<open>x || d\<close> on an optional string: \<open>undefined\<close> and \<open>''\<close> both give the default.\<close>

definition or_default :: "string option \<Rightarrow> string \<Rightarrow> string" where
  "or_default x d = (case x of None \<Rightarrow> d | Some s \<Rightarrow> if truthy s then s else d)"

text \<open>
  White space as \<^verbatim>\<open>String.prototype.trim\<close> sees it, among the code units below 256:
  tab, line feed, vertical tab, form feed, carriage return, space, no-break space.
\<close>

definition is_js_space :: "char \<Rightarrow> bool" where
  "is_js_space c = (c \<in> set [CHR 0x09, CHR 0x0A, CHR 0x0B, CHR 0x0C, CHR 0x0D, CHR 0x20, CHR 0xA0])"

definition js_trim :: "string \<Rightarrow> string" where
  "js_trim s = rev (dropWhile is_js_space (rev (dropWhile is_js_space s)))"

text \<open>
  \<^verbatim>\<open>String.prototype.toLowerCase\<close> on the code units below 256: the ASCII capitals and the
  Latin-1 capitals (0xC0 to 0xDE without the multiplication sign 0xD7) move up by 32,
  which sets the bit of weight 32.
\<close>

definition lower_char :: "char \<Rightarrow> char" where
  "lower_char c =
     (if (CHR ''A'' \<le> c \<and> c \<le> CHR ''Z'') \<or> (CHR 0xC0 \<le> c \<and> c \<le> CHR 0xDE \<and> c \<noteq> CHR 0xD7)
      then (case c of Char b0 b1 b2 b3 b4 b5 b6 b7 \<Rightarrow> Char b0 b1 b2 b3 b4 True b6 b7)
      else c)"

definition toLowerCase :: "string \<Rightarrow> string" where
  "toLowerCase s = map lower_char s"

section \<open>Errors\<close>

text \<open>
  The two tags of the protocol's \<^verbatim>\<open>ErrorCode\<close> that the server uses, and the two kinds of
  thrown value: an \<^verbatim>\<open>McpError\<close> with its tag and the message given to its constructor, and
  a plain \<^verbatim>\<open>Error\<close> with its message.
\<close>

datatype ErrorCode = InvalidParams | InternalError

datatype js_error = McpError ErrorCode string | PlainError string

text \<open>
  \<^verbatim>\<open>error.message\<close>. The protocol library builds the message of an \<^verbatim>\<open>McpError\<close> from
  the tag and from the constructor's argument; that formatting is the parameter \<open>sdk\<close>.
\<close>

fun error_message :: "(ErrorCode \<Rightarrow> string \<Rightarrow> string) \<Rightarrow> js_error \<Rightarrow> string" where
  "error_message sdk (McpError code msg) = sdk code msg"
| "error_message sdk (PlainError msg) = msg"

section \<open>Constants\<close>

definition CODE_EXTENSIONS :: "string list" where
  "CODE_EXTENSIONS = [''.js'', ''.ts'', ''.jsx'', ''.tsx'', ''.mjs'', ''.cjs'', ''.json'']"

definition SKIP_DIRECTORIES :: "string list" where
  "SKIP_DIRECTORIES = [''.git'', ''.svn'', ''.hg'', ''node_modules'', ''.DS_Store'', ''__pycache__'']"

definition CACHE_DURATION :: int where
  "CACHE_DURATION = 24 * 60 * 60 * 1000"

definition MAX_CODE_FILES :: nat where
  "MAX_CODE_FILES = 20"

section \<open>Package names\<close>

text \<open>
  The pattern of \<^verbatim>\<open>validatePackageName\<close>,
  \<^verbatim>\<open>/^(@[a-z0-9-~][a-z0-9-._~]*\/)?[a-z0-9-~][a-z0-9-._~]*$/i\<close>.
  The flag \<^verbatim>\<open>i\<close> lets both letter classes match the capitals too.
\<close>

definition is_alnum :: "char \<Rightarrow> bool" where
  "is_alnum c =
     ((CHR ''a'' \<le> c \<and> c \<le> CHR ''z'') \<or> (CHR ''A'' \<le> c \<and> c \<le> CHR ''Z'')
      \<or> (CHR ''0'' \<le> c \<and> c \<le> CHR ''9''))"

text \<open>The class \<^verbatim>\<open>[a-z0-9-~]\<close>.\<close>

definition name_first :: "char \<Rightarrow> bool" where
  "name_first c = (is_alnum c \<or> c = CHR ''-'' \<or> c = CHR ''~'')"

text \<open>The class \<^verbatim>\<open>[a-z0-9-._~]\<close>.\<close>

definition name_rest :: "char \<Rightarrow> bool" where
  "name_rest c = (is_alnum c \<or> c = CHR ''-'' \<or> c = CHR ''.'' \<or> c = CHR ''_'' \<or> c = CHR ''~'')"

text \<open>A whole string against \<^verbatim>\<open>[a-z0-9-~][a-z0-9-._~]*\<close>.\<close>

definition match_name :: "string \<Rightarrow> bool" where
  "match_name s = (case s of [] \<Rightarrow> False | c # cs \<Rightarrow> name_first c \<and> list_all name_rest cs)"

text \<open>
  A whole string against the pattern: either the optional group is skipped, or the string
  is \<open>@\<close>, a name, a slash at some position \<open>i\<close>, and a name.
\<close>

definition match_package_pattern :: "string \<Rightarrow> bool" where
  "match_package_pattern s =
     (match_name s \<or>
      list_ex (\<lambda>i. s ! 0 = CHR ''@'' \<and> s ! i = CHR ''/'' \<and>
                    match_name (take (i - 1) (drop 1 s)) \<and> match_name (drop (i + 1) s))
        [1..<length s])"

definition validatePackageName :: "string \<Rightarrow> js_error + unit" where
  "validatePackageName packageName =
     (if \<not> match_package_pattern packageName then
        Inl (McpError InvalidParams
          ''Invalid package name format. Package names must follow npm naming conventions.'')
      else if js_includes packageName ''..'' \<or> js_includes packageName [NUL]
              \<or> js_includes packageName [NEWLINE] then
        Inl (McpError InvalidParams ''Invalid package name: contains prohibited characters'')
      else Inr ())"

text \<open>\<^verbatim>\<open>packageName.replace(/[@\/]/g, '_')\<close> of \<^verbatim>\<open>downloadAndExtract\<close>.\<close>

definition sanitizeName :: "string \<Rightarrow> string" where
  "sanitizeName packageName =
     map (\<lambda>c. if c = CHR ''@'' \<or> c = CHR ''/'' then CHR ''_'' else c) packageName"


section \<open>The path module\<close>

text \<open>
  The functions of Node's \<^verbatim>\<open>path\<close> module that the server calls, in their POSIX form (the
  server is packaged for Linux). The module walks a path character by character; the model
  reads the same walk segment by segment: \<open>split_slash\<close> cuts a path at every slash, and
  \<open>norm_step\<close> is what the module's \<^verbatim>\<open>normalizeString\<close> does when it reaches the end of a
  segment. The result under construction is kept as a stack, last segment first.
\<close>

fun split_slash :: "string \<Rightarrow> string list" where
  "split_slash [] = [[]]"
| "split_slash (c # cs) =
     (if c = CHR ''/'' then [] # split_slash cs
      else (c # hd (split_slash cs)) # tl (split_slash cs))"

definition norm_step :: "bool \<Rightarrow> string list \<Rightarrow> string \<Rightarrow> string list" where
  "norm_step allowAboveRoot res seg =
     (if seg = [] \<or> seg = ''.'' then res
      else if seg = ''..'' then
        (case res of
           [] \<Rightarrow> if allowAboveRoot then [''..''] else []
         | lastSeg # below \<Rightarrow>
             if lastSeg \<noteq> ''..'' then below
             else if allowAboveRoot then ''..'' # res else res)
      else seg # res)"

definition norm_segments :: "bool \<Rightarrow> string \<Rightarrow> string list" where
  "norm_segments allowAboveRoot path = rev (foldl (norm_step allowAboveRoot) [] (split_slash path))"

definition normalizeString :: "string \<Rightarrow> bool \<Rightarrow> string" where
  "normalizeString path allowAboveRoot = js_join ''/'' (norm_segments allowAboveRoot path)"

definition path_normalize :: "string \<Rightarrow> string" where
  "path_normalize path =
     (if path = [] then ''.''
      else
        let isAbsolute = (hd path = CHR ''/'');
            trailingSeparator = (last path = CHR ''/'');
            p = normalizeString path (\<not> isAbsolute)
        in if p = [] then (if isAbsolute then ''/'' else if trailingSeparator then ''./'' else ''.'')
           else (if isAbsolute then ''/'' else []) @ p @ (if trailingSeparator then ''/'' else []))"

text \<open>\<^verbatim>\<open>path.join\<close> of two arguments: empty arguments are left out.\<close>

definition path_join :: "string \<Rightarrow> string \<Rightarrow> string" where
  "path_join a b =
     (let joined = (if a = [] then b else if b = [] then a else a @ ''/'' @ b)
      in if joined = [] then ''.'' else path_normalize joined)"

text \<open>
  \<^verbatim>\<open>path.resolve\<close> of one argument; \<open>cwd\<close> is the working directory of the process, which
  the module puts in front of a relative path.
\<close>

definition path_resolve :: "string \<Rightarrow> string \<Rightarrow> string" where
  "path_resolve cwd path =
     (let own = (if path = [] then [] else path @ ''/'');
          ownAbsolute = (path \<noteq> [] \<and> hd path = CHR ''/'');
          resolvedPath = (if ownAbsolute \<or> cwd = [] then own else cwd @ ''/'' @ own);
          resolvedAbsolute = (ownAbsolute \<or> (cwd \<noteq> [] \<and> hd cwd = CHR ''/''));
          r = normalizeString resolvedPath (\<not> resolvedAbsolute)
      in if resolvedAbsolute then CHR ''/'' # r else if r \<noteq> [] then r else ''.'')"

text \<open>
  \<^verbatim>\<open>path.relative\<close>: both paths are resolved, their common leading segments are dropped,
  every segment left of \<open>from\<close> becomes \<open>..\<close>, and the segments left of \<open>to\<close> follow.
\<close>

fun drop_common :: "string list \<Rightarrow> string list \<Rightarrow> string list \<times> string list" where
  "drop_common (x # xs) (y # ys) = (if x = y then drop_common xs ys else (x # xs, y # ys))"
| "drop_common xs ys = (xs, ys)"

definition path_relative :: "string \<Rightarrow> string \<Rightarrow> string \<Rightarrow> string" where
  "path_relative cwd from to =
     (if from = to then []
      else
        let f = path_resolve cwd from; t = path_resolve cwd to
        in if f = t then []
           else (case drop_common (norm_segments False f) (norm_segments False t) of
                   (fs, ts) \<Rightarrow> js_join ''/'' (replicate (length fs) ''..'' @ ts)))"

text \<open>
  \<^verbatim>\<open>path.extname\<close>: the last component of the path (trailing slashes dropped), from its
  last dot on; empty when the component has no dot, when its only dot is its first
  character, and when the component is \<open>..\<close>.
\<close>

definition last_component :: "string \<Rightarrow> string" where
  "last_component path =
     rev (takeWhile (\<lambda>c. c \<noteq> CHR ''/'') (dropWhile (\<lambda>c. c = CHR ''/'') (rev path)))"

definition path_extname :: "string \<Rightarrow> string" where
  "path_extname path =
     (let r = rev (last_component path);
          ext = rev (takeWhile (\<lambda>c. c \<noteq> CHR ''.'') r);
          upto_dot = dropWhile (\<lambda>c. c \<noteq> CHR ''.'') r
      in if upto_dot = [] then []
         else
           let stem = rev (tl upto_dot)
           in if stem = [] then []
              else if stem = ''.'' \<and> ext = [] then []
              else CHR ''.'' # ext)"

section \<open>The file system\<close>

text \<open>
  What the server can find at a path: a regular file with its text, a regular file whose
  read fails (with the message of the failure), a directory with its entries in the order
  \<^verbatim>\<open>readdirSync\<close> lists them, a directory whose listing fails, something that is neither
  a file nor a directory, and a name whose \<^verbatim>\<open>statSync\<close> fails (a dangling link).
\<close>

datatype fsnode =
    File string
  | Unreadable string
  | Dir "(string \<times> fsnode) list"
  | Locked
  | Special
  | Dangling

fun is_directory :: "fsnode \<Rightarrow> bool" where
  "is_directory (Dir items) = True"
| "is_directory Locked = True"
| "is_directory n = False"

fun is_file :: "fsnode \<Rightarrow> bool" where
  "is_file (File content) = True"
| "is_file (Unreadable msg) = True"
| "is_file n = False"

text \<open>The node that the segments lead to, from a directory down.\<close>

fun descend :: "fsnode \<Rightarrow> string list \<Rightarrow> fsnode option" where
  "descend n [] = Some n"
| "descend (Dir items) (s # ss) =
     (case map_of items s of None \<Rightarrow> None | Some child \<Rightarrow> descend child ss)"
| "descend n (s # ss) = None"

text \<open>The node at an absolute path; \<open>fs\<close> is the root directory.\<close>

definition node_at :: "fsnode \<Rightarrow> string \<Rightarrow> fsnode option" where
  "node_at fs path = descend fs (norm_segments False path)"


section \<open>Path validation and the single-file read\<close>

text \<open>\<^verbatim>\<open>.replace(/^(\.\.[\/\\])+/, '')\<close>: every leading \<open>../\<close> and \<open>..\\<close> is cut off.\<close>

fun strip_dotdot :: "string \<Rightarrow> string" where
  "strip_dotdot (a # b # c # rest) =
     (if a = CHR ''.'' \<and> b = CHR ''.'' \<and> (c = CHR ''/'' \<or> c = BACKSLASH)
      then strip_dotdot rest else a # b # c # rest)"
| "strip_dotdot s = s"

definition validateAndResolvePath :: "string \<Rightarrow> string \<Rightarrow> string \<Rightarrow> js_error + string" where
  "validateAndResolvePath cwd basePath userPath =
     (let normalizedPath = strip_dotdot (path_normalize userPath);
          fullPath = path_join basePath normalizedPath;
          resolvedPath = path_resolve cwd fullPath;
          resolvedBasePath = path_resolve cwd basePath
      in if \<not> startsWith resolvedPath resolvedBasePath then
           Inl (McpError InvalidParams ''Access denied: Path traversal attempt detected'')
         else Inr resolvedPath)"

text \<open>The calls into the file system that \<^verbatim>\<open>getSpecificFile\<close> makes, in order.\<close>

datatype fs_op = ExistsSync string | StatSync string | ReadFileSync string

text \<open>
  \<^verbatim>\<open>getSpecificFile\<close> returns the calls it made and its result: the text of the response, or
  the error thrown. \<open>sdk\<close> is the message formatting of the protocol library, \<open>cwd\<close> the
  working directory, \<open>fs\<close> the root of the file system.
\<close>

definition getSpecificFile ::
  "(ErrorCode \<Rightarrow> string \<Rightarrow> string) \<Rightarrow> string \<Rightarrow> fsnode \<Rightarrow> string \<Rightarrow> string
     \<Rightarrow> fs_op list \<times> (js_error + string)" where
  "getSpecificFile sdk cwd fs extractedPath filePath =
     (case validateAndResolvePath cwd extractedPath filePath of
        Inl e \<Rightarrow>
          ([], Inl (McpError InvalidParams (''Invalid file path: '' @ error_message sdk e)))
      | Inr fullFilePath \<Rightarrow>
          (case node_at fs fullFilePath of
             None \<Rightarrow>
               ([ExistsSync fullFilePath], Inl (PlainError (''File not found: '' @ filePath)))
           | Some Dangling \<Rightarrow>
               ([ExistsSync fullFilePath], Inl (PlainError (''File not found: '' @ filePath)))
           | Some (File content) \<Rightarrow>
               ([ExistsSync fullFilePath, StatSync fullFilePath, ReadFileSync fullFilePath],
                Inr (''File: '' @ filePath @ [NEWLINE, NEWLINE] @ content))
           | Some (Unreadable msg) \<Rightarrow>
               ([ExistsSync fullFilePath, StatSync fullFilePath, ReadFileSync fullFilePath],
                Inl (PlainError (''Failed to read file '' @ filePath @ '': '' @ msg)))
           | Some other \<Rightarrow>
               ([ExistsSync fullFilePath, StatSync fullFilePath],
                Inl (PlainError (''Path is not a file: '' @ filePath)))))"

section \<open>Walking the extracted tree\<close>

definition isCodeFile :: "string \<Rightarrow> bool" where
  "isCodeFile fileName = (toLowerCase (path_extname fileName) \<in> set CODE_EXTENSIONS)"

definition shouldSkipDirectory :: "string \<Rightarrow> bool" where
  "shouldSkipDirectory dirName = (startsWith dirName ''.'' \<or> dirName \<in> set SKIP_DIRECTORIES)"

record CodeFile =
  cf_path :: string
  cf_content :: string

text \<open>
  The inner function \<^verbatim>\<open>walk\<close> of \<^verbatim>\<open>findCodeFiles\<close>: \<open>walk_code\<close> is one call, on the node found
  at \<open>currentDir\<close>, and \<open>walk_code_items\<close> is its loop over the entries. A node that is not a
  listable directory makes \<^verbatim>\<open>readdirSync\<close> throw, which the walk catches; a file whose read
  fails and an entry whose \<^verbatim>\<open>statSync\<close> fails are passed over in the same way.
\<close>

fun walk_code :: "string \<Rightarrow> fsnode \<Rightarrow> CodeFile list"
  and walk_code_items :: "string \<Rightarrow> (string \<times> fsnode) list \<Rightarrow> CodeFile list" where
  "walk_code currentDir (Dir items) = walk_code_items currentDir items"
| "walk_code currentDir (File content) = []"
| "walk_code currentDir (Unreadable msg) = []"
| "walk_code currentDir Locked = []"
| "walk_code currentDir Special = []"
| "walk_code currentDir Dangling = []"
| "walk_code_items currentDir [] = []"
| "walk_code_items currentDir ((item, node) # rest) =
     (let fullPath = path_join currentDir item
      in (if is_directory node \<and> \<not> shouldSkipDirectory item then walk_code fullPath node
          else if is_file node \<and> isCodeFile item then
            (case node of
               File content \<Rightarrow> [\<lparr>cf_path = fullPath, cf_content = content\<rparr>]
             | other \<Rightarrow> [])
          else [])
         @ walk_code_items currentDir rest)"

definition findCodeFiles :: "fsnode \<Rightarrow> string \<Rightarrow> CodeFile list" where
  "findCodeFiles fs dir = (case node_at fs dir of None \<Rightarrow> [] | Some n \<Rightarrow> walk_code dir n)"

text \<open>The inner function \<^verbatim>\<open>walk\<close> of \<^verbatim>\<open>getAllFiles\<close>, in the same two parts.\<close>

fun walk_all :: "string \<Rightarrow> fsnode \<Rightarrow> string list"
  and walk_all_items :: "string \<Rightarrow> (string \<times> fsnode) list \<Rightarrow> string list" where
  "walk_all currentDir (Dir items) = walk_all_items currentDir items"
| "walk_all currentDir (File content) = []"
| "walk_all currentDir (Unreadable msg) = []"
| "walk_all currentDir Locked = []"
| "walk_all currentDir Special = []"
| "walk_all currentDir Dangling = []"
| "walk_all_items currentDir [] = []"
| "walk_all_items currentDir ((item, node) # rest) =
     (let fullPath = path_join currentDir item
      in (if is_directory node \<and> \<not> startsWith item ''.'' then walk_all fullPath node
          else if is_file node then [fullPath]
          else [])
         @ walk_all_items currentDir rest)"

definition getAllFiles :: "fsnode \<Rightarrow> string \<Rightarrow> string list" where
  "getAllFiles fs dir = (case node_at fs dir of None \<Rightarrow> [] | Some n \<Rightarrow> walk_all dir n)"


section \<open>The world outside the process\<close>

text \<open>
  Package metadata as the registry returns it. The server reads the parsed response without
  checking its shape, so the \<^verbatim>\<open>dist\<close> object may be missing.
\<close>

record Dist =
  tarball :: string
  shasum :: string

record PackageInfo =
  pi_name :: string
  pi_version :: string
  pi_dist :: "Dist option"
  pi_description :: "string option"

text \<open>
  Everything a tool call gets from outside: the working directory, the server's temporary
  directory, the message formatting of the protocol library, the outcome of the metadata
  request for a package and an optional version (the message of the rejection, or the
  parsed response), and the outcome of downloading a tarball and unpacking it into a
  directory (the message of the failure, or the file system as it stands afterwards).
\<close>

record World =
  cwd :: string
  tempDir :: string
  sdk_message :: "ErrorCode \<Rightarrow> string \<Rightarrow> string"
  registry :: "string \<Rightarrow> string option \<Rightarrow> string + PackageInfo"
  download :: "string \<Rightarrow> string \<Rightarrow> string + fsnode"

definition fetchPackageInfo :: "World \<Rightarrow> string \<Rightarrow> string option \<Rightarrow> js_error + PackageInfo" where
  "fetchPackageInfo w packageName version =
     (case registry w packageName (case version of None \<Rightarrow> None | Some v \<Rightarrow> if truthy v then Some v else None) of
        Inl msg \<Rightarrow> Inl (PlainError msg)
      | Inr packageInfo \<Rightarrow>
          (case pi_dist packageInfo of
             None \<Rightarrow> Inl (PlainError ''Invalid package info: missing tarball URL'')
           | Some d \<Rightarrow>
               if \<not> truthy (tarball d) then
                 Inl (PlainError ''Invalid package info: missing tarball URL'')
               else Inr packageInfo))"

definition extractPath_of :: "string \<Rightarrow> string \<Rightarrow> string" where
  "extractPath_of tmp packageName = path_join tmp (sanitizeName packageName)"

definition downloadAndExtract :: "World \<Rightarrow> string \<Rightarrow> string \<Rightarrow> js_error + (string \<times> fsnode)" where
  "downloadAndExtract w tarballUrl packageName =
     (let extractPath = extractPath_of (tempDir w) packageName
      in case download w tarballUrl extractPath of
           Inl msg \<Rightarrow> Inl (PlainError msg)
         | Inr fs \<Rightarrow> Inr (extractPath, fs))"

section \<open>The tools\<close>

text \<open>The closing lines of a bundle that leaves files out.\<close>

definition more_files_notice :: "nat \<Rightarrow> string" where
  "more_files_notice remaining =
     ''... and '' @ show_nat remaining @ '' more files'' @ [NEWLINE]
     @ ''Use '' @ [CHR 0x27] @ ''list_package_files'' @ [CHR 0x27]
     @ '' tool to see all files, then fetch specific files as needed.'' @ [NEWLINE]"

definition bundle_header :: "PackageInfo \<Rightarrow> nat \<Rightarrow> string" where
  "bundle_header packageInfo found =
     ''Package: '' @ pi_name packageInfo @ ''@'' @ pi_version packageInfo @ [NEWLINE]
     @ ''Description: '' @ or_default (pi_description packageInfo) ''No description'' @ [NEWLINE]
     @ ''Code files found: '' @ show_nat found @ [NEWLINE, NEWLINE]"

definition file_section :: "string \<Rightarrow> string \<Rightarrow> CodeFile \<Rightarrow> string" where
  "file_section wd extractedPath file =
     ''=== '' @ path_relative wd extractedPath (cf_path file) @ '' ==='' @ [NEWLINE]
     @ cf_content file @ [NEWLINE, NEWLINE]"

text \<open>
  The text that \<^verbatim>\<open>getAllCodeFiles\<close> builds from the list of discovered code files: the
  header, one section for each of the first \<open>MAX_CODE_FILES\<close> files, and the notice when
  files are left out.
\<close>

definition bundle_text :: "string \<Rightarrow> string \<Rightarrow> PackageInfo \<Rightarrow> CodeFile list \<Rightarrow> string" where
  "bundle_text wd extractedPath packageInfo codeFiles =
     (let filesToShow = take MAX_CODE_FILES codeFiles
      in bundle_header packageInfo (length codeFiles)
         @ concat (map (file_section wd extractedPath) filesToShow)
         @ (if length codeFiles > MAX_CODE_FILES
            then more_files_notice (length codeFiles - MAX_CODE_FILES) else []))"

definition getAllCodeFiles :: "string \<Rightarrow> fsnode \<Rightarrow> string \<Rightarrow> PackageInfo \<Rightarrow> string" where
  "getAllCodeFiles wd fs extractedPath packageInfo =
     bundle_text wd extractedPath packageInfo (findCodeFiles fs extractedPath)"

record GetPackageCodeArgs =
  gc_packageName :: string
  gc_version :: "string option"
  gc_filePath :: "string option"

text \<open>The body of the \<^verbatim>\<open>try\<close> block of \<^verbatim>\<open>getNpmPackageCode\<close>.\<close>

definition package_code_attempt :: "World \<Rightarrow> GetPackageCodeArgs \<Rightarrow> js_error + string" where
  "package_code_attempt w args =
     (case fetchPackageInfo w (gc_packageName args) (gc_version args) of
        Inl e \<Rightarrow> Inl e
      | Inr packageInfo \<Rightarrow>
          (case pi_dist packageInfo of
             None \<Rightarrow> Inl (PlainError ''Cannot read properties of undefined'')
           | Some d \<Rightarrow>
               (case downloadAndExtract w (tarball d) (gc_packageName args) of
                  Inl e \<Rightarrow> Inl e
                | Inr (extractedPath, fs) \<Rightarrow>
                    (case gc_filePath args of
                       None \<Rightarrow> Inr (getAllCodeFiles (cwd w) fs extractedPath packageInfo)
                     | Some filePath \<Rightarrow>
                         if truthy filePath then
                           snd (getSpecificFile (sdk_message w) (cwd w) fs extractedPath filePath)
                         else Inr (getAllCodeFiles (cwd w) fs extractedPath packageInfo)))))"

definition getNpmPackageCode :: "World \<Rightarrow> GetPackageCodeArgs \<Rightarrow> js_error + string" where
  "getNpmPackageCode w args =
     (if \<not> truthy (gc_packageName args) then
        Inl (McpError InvalidParams ''packageName is required and must be a string'')
      else
        (case validatePackageName (gc_packageName args) of
           Inl e \<Rightarrow> Inl e
         | Inr u \<Rightarrow>
             (case package_code_attempt w args of
                Inl e \<Rightarrow>
                  Inl (McpError InternalError
                        (''Failed to fetch package code: '' @ error_message (sdk_message w) e))
              | Inr result \<Rightarrow> Inr result)))"

record ListPackageFilesArgs =
  lf_packageName :: string
  lf_version :: "string option"

text \<open>\<^verbatim>\<open>allFiles.map(filePath => path.relative(extractedPath, filePath)).sort()\<close>.\<close>

definition fileList_of :: "string \<Rightarrow> fsnode \<Rightarrow> string \<Rightarrow> string list" where
  "fileList_of wd fs extractedPath =
     sort (map (path_relative wd extractedPath) (getAllFiles fs extractedPath))"

definition listing_text :: "string \<Rightarrow> string \<Rightarrow> string list \<Rightarrow> string" where
  "listing_text packageName version fileList =
     ''Package: '' @ packageName @ ''@'' @ version @ [NEWLINE]
     @ ''Total files: '' @ show_nat (length fileList) @ [NEWLINE, NEWLINE]
     @ ''Files:'' @ [NEWLINE] @ js_join [NEWLINE] fileList"

definition list_files_attempt :: "World \<Rightarrow> ListPackageFilesArgs \<Rightarrow> js_error + string" where
  "list_files_attempt w args =
     (case fetchPackageInfo w (lf_packageName args) (lf_version args) of
        Inl e \<Rightarrow> Inl e
      | Inr packageInfo \<Rightarrow>
          (case pi_dist packageInfo of
             None \<Rightarrow> Inl (PlainError ''Cannot read properties of undefined'')
           | Some d \<Rightarrow>
               (case downloadAndExtract w (tarball d) (lf_packageName args) of
                  Inl e \<Rightarrow> Inl e
                | Inr (extractedPath, fs) \<Rightarrow>
                    Inr (listing_text (lf_packageName args) (pi_version packageInfo)
                           (fileList_of (cwd w) fs extractedPath)))))"

definition listPackageFiles :: "World \<Rightarrow> ListPackageFilesArgs \<Rightarrow> js_error + string" where
  "listPackageFiles w args =
     (if \<not> truthy (lf_packageName args) then
        Inl (McpError InvalidParams ''packageName is required and must be a string'')
      else
        (case validatePackageName (lf_packageName args) of
           Inl e \<Rightarrow> Inl e
         | Inr u \<Rightarrow>
             (case list_files_attempt w args of
                Inl e \<Rightarrow>
                  Inl (McpError InternalError
                        (''Failed to list package files: '' @ error_message (sdk_message w) e))
              | Inr result \<Rightarrow> Inr result)))"


section \<open>Searching the registry\<close>

text \<open>
  One entry of a search response: the name of the package, which the server compares, and
  the rest of the entry (version, description, keywords, author, date, links, scores),
  which only the formatting of the text reads. The scores are floating-point numbers; the
  type of the rest is left open.
\<close>

record 'a SearchObject =
  so_name :: string
  so_rest :: 'a

record 'a SearchResponse =
  objects :: "'a SearchObject list"
  total :: int

text \<open>One call of \<^verbatim>\<open>performPackageSearch\<close>: the query, the size and the offset of the request.\<close>

datatype SearchCall = SearchCall string int int

text \<open>
  The outcome of a search request is given by the registry: the message of the rejection
  (network failure, timeout, a body that is not JSON) or the parsed response.
\<close>

type_synonym 'a search_service = "string \<Rightarrow> int \<Rightarrow> int \<Rightarrow> string + 'a SearchResponse"

record SearchPackagesArgs =
  sa_query :: "string option"
  sa_size :: "int option"
  sa_from :: "int option"

text \<open>
  \<^verbatim>\<open>searchNpmPackages\<close> returns the search requests it issued and its result. The parameter
  \<open>render\<close> is the formatting of the response as text (it prints floating-point scores and
  dates in the locale's form); when it throws, the same \<^verbatim>\<open>catch\<close> reports it.
\<close>

text \<open>The defaults of the destructuring \<^verbatim>\<open>{ query, size = 20, from = 0 }\<close>.\<close>

definition size_or_default :: "SearchPackagesArgs \<Rightarrow> int" where
  "size_or_default args = (case sa_size args of None \<Rightarrow> 20 | Some n \<Rightarrow> n)"

definition from_or_default :: "SearchPackagesArgs \<Rightarrow> int" where
  "from_or_default args = (case sa_from args of None \<Rightarrow> 0 | Some n \<Rightarrow> n)"

definition searchNpmPackages ::
  "'a search_service \<Rightarrow> (string \<Rightarrow> int \<Rightarrow> 'a SearchResponse \<Rightarrow> string + string)
     \<Rightarrow> SearchPackagesArgs \<Rightarrow> SearchCall list \<times> (js_error + string)" where
  "searchNpmPackages service render args =
     (let size_arg = size_or_default args;
          from_arg = from_or_default args
      in case sa_query args of
           None \<Rightarrow>
             ([], Inl (McpError InvalidParams ''query is required and must be a non-empty string''))
         | Some query \<Rightarrow>
             if \<not> truthy (js_trim query) then
               ([], Inl (McpError InvalidParams ''query is required and must be a non-empty string''))
             else if size_arg > 250 then
               ([], Inl (McpError InvalidParams ''size cannot exceed 250''))
             else
               ([SearchCall (js_trim query) size_arg from_arg],
                (case service (js_trim query) size_arg from_arg of
                   Inl msg \<Rightarrow> Inl (McpError InternalError (''Failed to search packages: '' @ msg))
                 | Inr searchResults \<Rightarrow>
                     (case render query from_arg searchResults of
                        Inl msg \<Rightarrow>
                          Inl (McpError InternalError (''Failed to search packages: '' @ msg))
                      | Inr resultText \<Rightarrow> Inr resultText))))"

section \<open>The popular-packages resource\<close>

record ServerState =
  popularPackagesCache :: "string option"
  popularPackagesCacheTime :: int

definition initial_state :: ServerState where
  "initial_state = \<lparr>popularPackagesCache = None, popularPackagesCacheTime = 0\<rparr>"

definition popularQueries :: "string list" where
  "popularQueries = [''react'', ''lodash'', ''express'', ''typescript'', ''webpack'']"

text \<open>
  The inner loop over one response: an entry whose name is new is added to the set of
  names and to the list of details.
\<close>

fun add_results ::
  "string list \<times> 'a SearchObject list \<Rightarrow> 'a SearchObject list \<Rightarrow> string list \<times> 'a SearchObject list" where
  "add_results (allPopularPackages, packageDetails) [] = (allPopularPackages, packageDetails)"
| "add_results (allPopularPackages, packageDetails) (result # results) =
     (if so_name result \<in> set allPopularPackages
      then add_results (allPopularPackages, packageDetails) results
      else add_results (allPopularPackages @ [so_name result], packageDetails @ [result]) results)"

text \<open>
  The outer loop over the search terms: one request each, of size 10 from offset 0; a
  request that fails is logged and passed over.
\<close>

fun collect_popular ::
  "'a search_service \<Rightarrow> string list \<times> 'a SearchObject list \<Rightarrow> string list
     \<Rightarrow> SearchCall list \<times> 'a SearchObject list" where
  "collect_popular service acc [] = ([], snd acc)"
| "collect_popular service acc (searchTerm # terms) =
     (let acc' = (case service searchTerm 10 0 of
                    Inl msg \<Rightarrow> acc
                  | Inr results \<Rightarrow> add_results acc (objects results));
          (calls, details) = collect_popular service acc' terms
      in (SearchCall searchTerm 10 0 # calls, details))"

text \<open>The first line of the summary, with the bytes of its emoji in UTF-8.\<close>

definition popular_heading :: string where
  "popular_heading =
     ''# '' @ [CHR 0xF0, CHR 0x9F, CHR 0x94, CHR 0xA5] @ '' Most Popular NPM Packages''
     @ [NEWLINE, NEWLINE]"

text \<open>
  The guard of \<^verbatim>\<open>getPopularPackages\<close>: the cached text, when there is one (a non-empty
  string) and it is younger than \<open>CACHE_DURATION\<close> at the time \<open>now\<close>.
\<close>

definition cache_lookup :: "int \<Rightarrow> ServerState \<Rightarrow> string option" where
  "cache_lookup now st =
     (case popularPackagesCache st of
        None \<Rightarrow> None
      | Some cached \<Rightarrow>
          if truthy cached \<and> now - popularPackagesCacheTime st < CACHE_DURATION
          then Some cached else None)"

text \<open>
  \<^verbatim>\<open>getPopularPackages\<close> is asynchronous: after its freshness test it awaits the registry
  (five search requests), and only then stores the text with the time it read at its
  start. Other reads can run in between, so one read is modelled in steps.

  The fetch: the search requests and the text built from their results, or the error
  thrown. \<open>isoNow\<close> is the time in ISO form that the text carries; \<open>entries\<close> is the
  sorting of the collected packages (by floating-point scores) and their formatting, with
  dates in the locale's form, which throws when an entry lacks a part it reads.
\<close>

definition fetch_popular ::
  "'a search_service \<Rightarrow> ('a SearchObject list \<Rightarrow> string + string) \<Rightarrow> string
     \<Rightarrow> SearchCall list \<times> (js_error + string)" where
  "fetch_popular service entries isoNow =
     (let (calls, packageDetails) = collect_popular service ([], []) popularQueries
      in case entries packageDetails of
           Inl msg \<Rightarrow>
             (calls, Inl (McpError InternalError (''Failed to fetch popular packages: '' @ msg)))
         | Inr lines \<Rightarrow>
             (calls, Inr (popular_heading @ ''Updated: '' @ isoNow @ [NEWLINE, NEWLINE] @ lines)))"

text \<open>
  The store that ends a successful fetch: both fields are assigned, the time being the
  \<open>now\<close> that the read took at its start. A fetch that threw stores nothing.
\<close>

definition store_popular :: "int \<Rightarrow> js_error + string \<Rightarrow> ServerState \<Rightarrow> ServerState" where
  "store_popular now result st =
     (case result of
        Inl e \<Rightarrow> st
      | Inr resultText \<Rightarrow>
          st\<lparr>popularPackagesCache := Some resultText, popularPackagesCacheTime := now\<rparr>)"

text \<open>
  What happens to the resource, in the order it happens: a read begins at a time (it takes
  \<open>now\<close> and makes the freshness test), or the fetch of a read in flight ends (the read in
  flight is named by its position among the reads in flight, oldest first).
\<close>

datatype read_event = Begin int | Complete nat

text \<open>
  The server state together with the reads in flight (the \<open>now\<close> of each), run through a
  list of events; the result lists what each read returned, in the order the reads
  returned: the search requests it issued and its text or error. A read that finds a fresh
  text returns at once; any other read joins the reads in flight and returns when its
  fetch ends. The registry and the clock are given per read, by the \<open>now\<close> of the read:
  \<open>service now\<close> answers the requests of that read, \<open>stamp now\<close> is the ISO time in
  its text.
\<close>

fun run_reads ::
  "(int \<Rightarrow> 'a search_service) \<Rightarrow> ('a SearchObject list \<Rightarrow> string + string) \<Rightarrow> (int \<Rightarrow> string)
     \<Rightarrow> read_event list \<Rightarrow> ServerState \<times> int list
     \<Rightarrow> (SearchCall list \<times> (js_error + string)) list \<times> (ServerState \<times> int list)" where
  "run_reads service entries stamp [] sys = ([], sys)"
| "run_reads service entries stamp (Begin now # evs) (st, inflight) =
     (case cache_lookup now st of
        Some cached \<Rightarrow>
          (case run_reads service entries stamp evs (st, inflight) of
             (outs, sys') \<Rightarrow> (([], Inr cached) # outs, sys'))
      | None \<Rightarrow> run_reads service entries stamp evs (st, inflight @ [now]))"
| "run_reads service entries stamp (Complete k # evs) (st, inflight) =
     (if k < length inflight then
        (case fetch_popular (service (inflight ! k)) entries (stamp (inflight ! k)) of
           (calls, result) \<Rightarrow>
             (case run_reads service entries stamp evs
                     (store_popular (inflight ! k) result st,
                      take k inflight @ drop (Suc k) inflight) of
                (outs, sys') \<Rightarrow> ((calls, result) # outs, sys')))
      else run_reads service entries stamp evs (st, inflight))"

text \<open>The times of the reads that begin in a list of events.\<close>

fun begins :: "read_event list \<Rightarrow> int list" where
  "begins [] = []"
| "begins (Begin now # evs) = now # begins evs"
| "begins (Complete k # evs) = begins evs"

section \<open>The HTTP listener\<close>

record Request =
  req_method :: "string option"
  req_url :: "string option"
  req_authorization :: "string option"

text \<open>\<^verbatim>\<open>process.env.AUTH_TOKEN || null\<close>.\<close>

definition authToken_of :: "string option \<Rightarrow> string option" where
  "authToken_of env_value =
     (case env_value of None \<Rightarrow> None | Some v \<Rightarrow> if truthy v then Some v else None)"

definition isAuthValid :: "string option \<Rightarrow> string option \<Rightarrow> bool" where
  "isAuthValid authToken authHeader =
     (case authToken of
        None \<Rightarrow> True
      | Some expected \<Rightarrow>
          if \<not> truthy expected then True
          else
            (case authHeader of
               None \<Rightarrow> False
             | Some header \<Rightarrow>
                 if \<not> truthy header then False
                 else
                   (let token = (if startsWith header ''Bearer '' then drop 7 header else header)
                    in token = expected)))"

text \<open>
  What becomes of a request: the callback given to \<^verbatim>\<open>createServer\<close> answers it with a
  status and a body, or hands it to the protocol transport (\<^verbatim>\<open>transport.handleRequest\<close>),
  or the callback never gets it.
\<close>

datatype HttpOutcome = Respond nat string | HandleRequest | NotDelivered

definition json_field :: "string \<Rightarrow> string \<Rightarrow> string" where
  "json_field k v = [CHR 0x22] @ k @ [CHR 0x22] @ '':'' @ [CHR 0x22] @ v @ [CHR 0x22]"

definition unauthorized_body :: string where
  "unauthorized_body =
     ''{'' @ json_field ''error'' ''Unauthorized: Invalid or missing authentication token'' @ ''}''"

definition health_body :: string where
  "health_body =
     ''{'' @ json_field ''status'' ''healthy'' @ '','' @ json_field ''service'' ''npm-package-mcp-server''
     @ '','' @ json_field ''version'' ''1.0.0'' @ ''}''"

text \<open>
  The listener. The server has a callback for Node's \<^verbatim>\<open>request\<close> event only, and Node does
  not raise that event for every request: a \<^verbatim>\<open>CONNECT\<close> request goes to the listeners of
  \<^verbatim>\<open>connect\<close>, of which the server has none, so Node closes the connection; what Node's
  parser refuses never reaches the callback either. \<open>delivered\<close> is Node's decision for
  the other requests. For a request it gets, the callback runs its checks in the order of
  the source.
\<close>

definition handle_http :: "(Request \<Rightarrow> bool) \<Rightarrow> string option \<Rightarrow> Request \<Rightarrow> HttpOutcome" where
  "handle_http delivered authToken req =
     (if req_method req = Some ''CONNECT'' then NotDelivered
      else if \<not> delivered req then NotDelivered
      else if req_method req = Some ''OPTIONS'' then Respond 200 []
      else if (case authToken of None \<Rightarrow> False | Some t \<Rightarrow> truthy t)
              \<and> \<not> isAuthValid authToken (req_authorization req)
      then Respond 401 unauthorized_body
      else if req_url req = Some ''/health'' then Respond 200 health_body
      else if (case req_url req of None \<Rightarrow> False | Some u \<Rightarrow> startsWith u ''/mcp'')
      then HandleRequest
      else Respond 404 ''Not Found'')"

section \<open>Vocabulary of the properties\<close>

text \<open>
  A segment that can name an entry of a directory: not empty, without a slash, and neither
  \<open>.\<close> nor \<open>..\<close>. An absolute path in normal form is a slash followed by such segments
  joined by slashes; the extraction roots and the temporary directory, which \<^verbatim>\<open>path.join\<close>
  builds from the absolute directory of the program, are of this form.
\<close>

definition good_segment :: "string \<Rightarrow> bool" where
  "good_segment s = (s \<noteq> [] \<and> CHR ''/'' \<notin> set s \<and> s \<noteq> ''.'' \<and> s \<noteq> ''..'')"

definition abs_path :: "string list \<Rightarrow> string" where
  "abs_path segs = CHR ''/'' # js_join ''/'' segs"

text \<open>A path lies within a root when the segments of the root lead to it.\<close>

definition within_root :: "string \<Rightarrow> string \<Rightarrow> bool" where
  "within_root root p = prefix (norm_segments False root) (norm_segments False p)"

text \<open>
  Every entry below a node, with the names that lead to it from the node, and the trees
  that a file system can hold: the names of a directory are distinct and are good
  segments.
\<close>

fun entries_under :: "fsnode \<Rightarrow> (string list \<times> fsnode) list"
  and entries_of :: "(string \<times> fsnode) list \<Rightarrow> (string list \<times> fsnode) list" where
  "entries_under (Dir items) = entries_of items"
| "entries_under (File content) = []"
| "entries_under (Unreadable msg) = []"
| "entries_under Locked = []"
| "entries_under Special = []"
| "entries_under Dangling = []"
| "entries_of [] = []"
| "entries_of ((name, node) # rest) =
     ([name], node) # map (\<lambda>(p, n). (name # p, n)) (entries_under node) @ entries_of rest"

fun wf_tree :: "fsnode \<Rightarrow> bool"
  and wf_items :: "(string \<times> fsnode) list \<Rightarrow> bool" where
  "wf_tree (Dir items) = (distinct (map fst items) \<and> wf_items items)"
| "wf_tree (File content) = True"
| "wf_tree (Unreadable msg) = True"
| "wf_tree Locked = True"
| "wf_tree Special = True"
| "wf_tree Dangling = True"
| "wf_items [] = True"
| "wf_items ((name, node) # rest) = (good_segment name \<and> wf_tree node \<and> wf_items rest)"

section \<open>Auxiliary notions of the proofs\<close>

text \<open>
  The segments that normalisation keeps when no segment is \<open>..\<close>.
\<close>

definition kept :: "string list \<Rightarrow> string list" where
  "kept segs = filter (\<lambda>s. s \<noteq> [] \<and> s \<noteq> ''.'') segs"

text \<open>
  The shape of the stack of \<^verbatim>\<open>normalizeString\<close> at every step: good segments on top of a run
  of \<open>..\<close> segments, and no such run when the path may not climb above its root.
\<close>

definition dotdot_stack :: "bool \<Rightarrow> string list \<Rightarrow> bool" where
  "dotdot_stack a stack =
     (\<exists>k gs. stack = rev gs @ replicate k ''..'' \<and> list_all good_segment gs \<and> (a \<or> k = 0))"

text \<open>
  The entries of a tree that the two walks report: for the listing, the files that no
  directory starting with a dot leads to; for the code files, the readable files with a
  code extension that no skipped directory leads to.
\<close>

definition listed_entry :: "string list \<times> fsnode \<Rightarrow> bool" where
  "listed_entry e = (is_file (snd e) \<and> list_all (\<lambda>d. \<not> startsWith d ''.'') (butlast (fst e)))"

definition code_entry :: "string list \<times> fsnode \<Rightarrow> bool" where
  "code_entry e =
     ((case snd e of File content \<Rightarrow> True | other \<Rightarrow> False) \<and> isCodeFile (last (fst e)) \<and>
      list_all (\<lambda>d. \<not> shouldSkipDirectory d) (butlast (fst e)))"

fun file_text :: "fsnode \<Rightarrow> string" where
  "file_text (File content) = content"
| "file_text n = []"

text \<open>
  An entry of a subdirectory, seen from the directory that holds it.
\<close>

definition under :: "string \<Rightarrow> string list \<times> fsnode \<Rightarrow> string list \<times> fsnode" where
  "under name e = (name # fst e, snd e)"

text \<open>
  What each walk adds for one entry of the tree below its root \<open>abs_path rs\<close>.
\<close>

definition emit_all :: "string list \<Rightarrow> string list \<times> fsnode \<Rightarrow> string list" where
  "emit_all rs e = (if listed_entry e then [abs_path (rs @ fst e)] else [])"

definition emit_code :: "string list \<Rightarrow> string list \<times> fsnode \<Rightarrow> CodeFile list" where
  "emit_code rs e =
     (if code_entry e then [\<lparr>cf_path = abs_path (rs @ fst e), cf_content = file_text (snd e)\<rparr>] else [])"

text \<open>
  A list of segments in which every \<open>..\<close> stands before every other segment.
\<close>

definition dotdot_led :: "string list \<Rightarrow> bool" where
  "dotdot_led segs = (\<exists>k rest. segs = replicate k ''..'' @ rest \<and> ''..'' \<notin> set rest)"

text \<open>
  Reading a decimal numeral back: what a reader of the notice does with the digits of the
  remainder count.
\<close>

definition read_decimal :: "string \<Rightarrow> nat" where
  "read_decimal s = foldl (\<lambda>acc c. 10 * acc + (of_char c - 48)) 0 s"

section \<open>An example installation\<close>

text \<open>
  A registry whose search requests all fail, a formatting of the collected packages and a
  clock, for the examples of the popular-packages resource.
\<close>

definition offline :: "int \<Rightarrow> unit search_service" where
  "offline now q n k = Inl ''offline''"

definition no_entries :: "unit SearchObject list \<Rightarrow> string + string" where
  "no_entries details = Inr ''none''"

definition clock :: "int \<Rightarrow> string" where
  "clock now = show_nat (nat now)"

text \<open>
  An extracted package: a code file in a subdirectory and one at the top, a file that is not
  code, a directory whose name starts with a dot, a \<^verbatim>\<open>node_modules\<close> directory, and a code
  file that cannot be read. It is unpacked at \<^verbatim>\<open>/app/temp/pkg\<close>.
\<close>

definition example_tree :: fsnode where
  "example_tree =
     Dir [(''lib'', Dir [(''b.js'', File ''B'')]),
          (''a.js'', File ''A''),
          (''README.md'', File ''R''),
          (''.github'', Dir [(''ci.yml'', File ''C'')]),
          (''node_modules'', Dir [(''dep.js'', File ''D'')]),
          (''locked.ts'', Unreadable ''EACCES'')]"

definition example_fs :: fsnode where
  "example_fs = Dir [(''app'', Dir [(''temp'', Dir [(''pkg'', example_tree)])])]"

text \<open>
  The message of an \<^verbatim>\<open>McpError\<close> as the protocol library formats it, with the numbers of the
  two tags.
\<close>

definition example_sdk :: "ErrorCode \<Rightarrow> string \<Rightarrow> string" where
  "example_sdk code msg =
     ''MCP error '' @ (case code of InvalidParams \<Rightarrow> ''-32602'' | InternalError \<Rightarrow> ''-32603'')
     @ '': '' @ msg"

text \<open>
  A server that runs in \<^verbatim>\<open>/app\<close>, with a registry that knows every package at version
  \<open>1.0.0\<close> and a download that unpacks the example tree.
\<close>

definition example_world :: World where
  "example_world =
     \<lparr>cwd = ''/app'', tempDir = ''/app/temp'', sdk_message = example_sdk,
      registry = (\<lambda>name version.
        Inr \<lparr>pi_name = name, pi_version = ''1.0.0'',
             pi_dist = Some \<lparr>tarball = ''https://registry.example/pkg.tgz'', shasum = ''0''\<rparr>,
             pi_description = None\<rparr>),
      download = (\<lambda>url dir. Inr example_fs)\<rparr>"

section \<open>Package names: what is accepted and what is rejected\<close>

lemma js_includes_single: "js_includes s [c] = (c \<in> set s)"
  by (induction s) auto

lemma name_first_rest: "name_first c \<Longrightarrow> name_rest c"
  by (auto simp: name_first_def name_rest_def)

lemma match_name_chars: "match_name s \<Longrightarrow> c \<in> set s \<Longrightarrow> name_rest c"
  by (cases s) (auto simp: match_name_def list_all_iff name_first_rest)

lemma name_rest_plain: "name_rest c \<Longrightarrow> c \<noteq> NUL \<and> c \<noteq> NEWLINE \<and> c \<noteq> CHR ''/'' \<and> c \<noteq> CHR ''@''"
  by (auto simp: name_rest_def is_alnum_def NUL_def NEWLINE_def)

lemma scoped_split:
  assumes "1 \<le> i" "i < length s"
  shows "s = s ! 0 # take (i - 1) (drop 1 s) @ s ! i # drop (i + 1) s"
proof -
  from assms obtain c cs where s: "s = c # cs" by (cases s) auto
  with assms have i: "i - 1 < length cs" by auto
  have "cs = take (i - 1) cs @ cs ! (i - 1) # drop (Suc (i - 1)) cs"
    using i by (simp add: id_take_nth_drop)
  then show ?thesis using s assms by (cases i) auto
qed

lemma pattern_chars:
  assumes "match_package_pattern s" "c \<in> set s"
  shows "name_rest c \<or> c = CHR ''@'' \<or> c = CHR ''/''"
proof -
  from assms(1) consider "match_name s"
    | i where "1 \<le> i" "i < length s" "s ! 0 = CHR ''@''" "s ! i = CHR ''/''"
        "match_name (take (i - 1) (drop 1 s))" "match_name (drop (i + 1) s)"
    by (auto simp: match_package_pattern_def list_ex_iff)
  then show ?thesis
  proof cases
    case 1
    then show ?thesis using assms(2) match_name_chars by blast
  next
    case 2
    have "s = s ! 0 # take (i - 1) (drop 1 s) @ s ! i # drop (i + 1) s"
      using scoped_split[OF 2(1,2)] .
    then have "c \<in> set (s ! 0 # take (i - 1) (drop 1 s) @ s ! i # drop (i + 1) s)"
      using assms(2) by simp
    then show ?thesis using 2 match_name_chars by auto
  qed
qed

lemma pattern_no_control:
  assumes "match_package_pattern s"
  shows "\<not> js_includes s [NUL] \<and> \<not> js_includes s [NEWLINE]"
proof -
  have "NUL \<notin> set s"
    using pattern_chars[OF assms, of NUL] name_rest_plain[of NUL] by (auto simp: NUL_def)
  moreover have "NEWLINE \<notin> set s"
    using pattern_chars[OF assms, of NEWLINE] name_rest_plain[of NEWLINE] by (auto simp: NEWLINE_def)
  ultimately show ?thesis by (simp add: js_includes_single)
qed

lemma babel_core_matches: "match_package_pattern ''@babel/core''"
  by (simp add: match_package_pattern_def match_name_def name_first_def name_rest_def is_alnum_def upt_rec)

lemma a_dotdot_b_matches: "match_package_pattern ''a..b''"
  by (simp add: match_package_pattern_def match_name_def name_first_def name_rest_def is_alnum_def)

text \<open>
  Claim C2, as the code has it. A package name that matches the pattern and does not
  contain two dots in a row is accepted; a name that contains two dots in a row, a null
  byte or a newline is rejected with the tag \<open>InvalidParams\<close>. (A name can match the pattern
  and contain two dots in a row: the second check rejects it.)
\<close>

theorem validatePackageName_accepts_rejects:
  "(match_package_pattern n \<and> \<not> js_includes n ''..'' \<longrightarrow> validatePackageName n = Inr ()) \<and>
   (js_includes n ''..'' \<or> js_includes n [NUL] \<or> js_includes n [NEWLINE] \<longrightarrow>
      (\<exists>msg. validatePackageName n = Inl (McpError InvalidParams msg)))"
  using pattern_no_control[of n] by (auto simp: validatePackageName_def)

theorem validatePackageName_accepts_rejects_witness:
  "match_package_pattern ''@babel/core'' \<and> \<not> js_includes ''@babel/core'' ''..'' \<and>
   validatePackageName ''@babel/core'' = Inr () \<and>
   js_includes ''a..b'' ''..'' \<and>
   (\<exists>msg. validatePackageName ''a..b'' = Inl (McpError InvalidParams msg))"
  using validatePackageName_accepts_rejects[of "''@babel/core''"]
        validatePackageName_accepts_rejects[of "''a..b''"] babel_core_matches
  by simp

theorem validatePackageName_pattern_counterexample:
  "match_package_pattern ''a..b'' \<and> validatePackageName ''a..b'' \<noteq> Inr ()"
  using a_dotdot_b_matches by (simp add: validatePackageName_def)

section \<open>The path module on paths in normal form\<close>

lemma split_ne [simp]: "split_slash s \<noteq> []"
  by (induction s) auto

lemma split_append: "split_slash (a @ CHR ''/'' # b) = split_slash a @ split_slash b"
  by (induction a) auto

lemma split_noslash: "CHR ''/'' \<notin> set s \<Longrightarrow> split_slash s = [s]"
  by (induction s) auto

lemma split_segs_noslash: "s \<in> set (split_slash p) \<Longrightarrow> CHR ''/'' \<notin> set s"
proof (induction p arbitrary: s)
  case Nil
  then show ?case by simp
next
  case (Cons c p)
  show ?case
  proof (cases "c = CHR ''/''")
    case True
    with Cons show ?thesis by auto
  next
    case False
    have "split_slash p = hd (split_slash p) # tl (split_slash p)" by simp
    then have mem: "hd (split_slash p) \<in> set (split_slash p)" "set (tl (split_slash p)) \<subseteq> set (split_slash p)"
      by (metis list.set_intros(1), metis list.set_intros(2) subsetI)
    from Cons.prems False have "s = c # hd (split_slash p) \<or> s \<in> set (tl (split_slash p))" by simp
    then show ?thesis using mem Cons.IH False by auto
  qed
qed

lemma hd_split: "hd (split_slash s) = takeWhile (\<lambda>c. c \<noteq> CHR ''/'') s"
  by (induction s) auto

lemma split_join:
  "segs \<noteq> [] \<Longrightarrow> \<forall>s\<in>set segs. CHR ''/'' \<notin> set s \<Longrightarrow> split_slash (js_join ''/'' segs) = segs"
proof (induction "''/''" segs rule: js_join.induct)
  case 1
  then show ?case by simp
next
  case (2 x)
  then show ?case by (simp add: split_noslash)
next
  case (3 x y ys)
  have "split_slash (x @ CHR ''/'' # js_join ''/'' (y # ys)) = split_slash x @ split_slash (js_join ''/'' (y # ys))"
    by (rule split_append)
  with 3 show ?case by (simp add: split_noslash)
qed

lemma js_join_snoc: "xs \<noteq> [] \<Longrightarrow> js_join sep (xs @ [x]) = js_join sep xs @ sep @ x"
  by (induction sep xs rule: js_join.induct) auto

lemma js_join_nonempty: "segs \<noteq> [] \<Longrightarrow> \<forall>s\<in>set segs. s \<noteq> [] \<Longrightarrow> js_join sep segs \<noteq> []"
  by (induction sep segs rule: js_join.induct) auto

lemma norm_step_skip [simp]: "norm_step a res [] = res" "norm_step a res ''.'' = res"
  by (simp_all add: norm_step_def)

lemma norm_step_good: "good_segment s \<Longrightarrow> norm_step a res s = s # res"
  by (simp add: norm_step_def good_segment_def)

lemma fold_good: "\<forall>s\<in>set gs. good_segment s \<Longrightarrow> foldl (norm_step a) acc gs = rev gs @ acc"
  by (induction gs arbitrary: acc) (auto simp: norm_step_good)

lemma fold_no_dotdot:
  "''..'' \<notin> set segs \<Longrightarrow> foldl (norm_step a) acc segs = rev (kept segs) @ acc"
  by (induction segs arbitrary: acc) (auto simp: norm_step_def kept_def)

lemma kept_good:
  "''..'' \<notin> set segs \<Longrightarrow> \<forall>s\<in>set segs. CHR ''/'' \<notin> set s \<Longrightarrow> \<forall>s\<in>set (kept segs). good_segment s"
  by (auto simp: kept_def good_segment_def)

lemma good_noslash: "good_segment s \<Longrightarrow> CHR ''/'' \<notin> set s"
  by (simp add: good_segment_def)

lemma split_abs:
  "\<forall>s\<in>set gs. good_segment s \<Longrightarrow>
     split_slash (abs_path gs) = [] # (if gs = [] then [[]] else gs)"
  by (auto simp: abs_path_def split_join good_noslash)

lemma fold_abs:
  assumes "\<forall>s\<in>set gs. good_segment s"
  shows "foldl (norm_step a) [] (split_slash (abs_path gs)) = rev gs"
proof (cases "gs = []")
  case True
  then show ?thesis by (simp add: abs_path_def)
next
  case False
  then show ?thesis using assms by (simp add: split_abs fold_good)
qed

lemma norm_segments_abs: "\<forall>s\<in>set gs. good_segment s \<Longrightarrow> norm_segments a (abs_path gs) = gs"
  by (simp add: norm_segments_def fold_abs)

lemma norm_segments_slash: "norm_segments a (p @ ''/'') = norm_segments a p"
  using split_append[of p "[]"] by (simp add: norm_segments_def)

lemma norm_segments_append:
  "norm_segments a (x @ CHR ''/'' # y)
     = rev (foldl (norm_step a) (foldl (norm_step a) [] (split_slash x)) (split_slash y))"
  by (simp add: norm_segments_def split_append)

lemma abs_path_ne [simp]: "abs_path gs \<noteq> []" "hd (abs_path gs) = CHR ''/''"
  by (simp_all add: abs_path_def)

lemma abs_path_snoc:
  "abs_path (gs @ [x]) = (if gs = [] then CHR ''/'' # x else abs_path gs @ ''/'' @ x)"
  by (simp add: abs_path_def js_join_snoc)

lemma path_resolve_abs:
  assumes "\<forall>s\<in>set gs. good_segment s"
  shows "path_resolve wd (abs_path gs) = abs_path gs"
proof -
  have "norm_segments False (abs_path gs @ ''/'') = gs"
    using assms by (simp only: norm_segments_slash norm_segments_abs)
  then show ?thesis
    by (simp add: path_resolve_def Let_def normalizeString_def abs_path_def)
qed

lemma dotdot_stackI:
  "stack = rev gs @ replicate k ''..'' \<Longrightarrow> list_all good_segment gs \<Longrightarrow> a \<or> k = 0
     \<Longrightarrow> dotdot_stack a stack"
  unfolding dotdot_stack_def by blast

lemma step_shape:
  assumes "dotdot_stack a stack" "CHR ''/'' \<notin> set seg"
  shows "dotdot_stack a (norm_step a stack seg)"
proof -
  from assms(1) obtain k gs where st: "stack = rev gs @ replicate k ''..''"
    and gs: "list_all good_segment gs" and ak: "a \<or> k = 0"
    unfolding dotdot_stack_def by blast
  consider "seg = [] \<or> seg = ''.''" | "seg = ''..''" | "good_segment seg"
    using assms(2) by (auto simp: good_segment_def)
  then show ?thesis
  proof cases
    case 1
    then have "norm_step a stack seg = stack" by auto
    with assms(1) show ?thesis by simp
  next
    case 2
    show ?thesis
    proof (cases gs rule: rev_cases)
      case Nil
      show ?thesis
      proof (cases k)
        case 0
        with Nil st 2 have "norm_step a stack seg = rev [] @ replicate (if a then 1 else 0) ''..''"
          by (simp add: norm_step_def)
        then show ?thesis by (rule dotdot_stackI) simp_all
      next
        case (Suc j)
        with ak have a by simp
        with Nil st 2 Suc have "norm_step a stack seg = rev [] @ replicate (Suc (Suc j)) ''..''"
          by (simp add: norm_step_def)
        then show ?thesis by (rule dotdot_stackI) (simp_all add: \<open>a\<close>)
      qed
    next
      case (snoc gs0 g)
      with gs have "g \<noteq> ''..''" by (simp add: good_segment_def)
      with snoc st 2 have "norm_step a stack seg = rev gs0 @ replicate k ''..''"
        by (simp add: norm_step_def)
      then show ?thesis by (rule dotdot_stackI) (use snoc gs ak in simp_all)
    qed
  next
    case 3
    then have "norm_step a stack seg = rev (gs @ [seg]) @ replicate k ''..''"
      using st by (simp add: norm_step_good)
    then show ?thesis by (rule dotdot_stackI) (use 3 gs ak in simp_all)
  qed
qed

lemma fold_shape:
  "dotdot_stack a stack \<Longrightarrow> list_all (\<lambda>s. CHR ''/'' \<notin> set s) segs
     \<Longrightarrow> dotdot_stack a (foldl (norm_step a) stack segs)"
  by (induction segs arbitrary: stack) (simp_all add: step_shape)

lemma split_all_noslash: "list_all (\<lambda>s. CHR ''/'' \<notin> set s) (split_slash p)"
  using split_segs_noslash by (simp add: list_all_iff)

lemma norm_shape:
  "\<exists>k gs. norm_segments a p = replicate k ''..'' @ gs \<and> list_all good_segment gs \<and> (a \<or> k = 0)"
proof -
  have "dotdot_stack a []"
    using dotdot_stackI[of "[]" "[]" 0 a] by simp
  then have "dotdot_stack a (foldl (norm_step a) [] (split_slash p))"
    using split_all_noslash by (rule fold_shape)
  then obtain k gs where "foldl (norm_step a) [] (split_slash p) = rev gs @ replicate k ''..''"
    and "list_all good_segment gs" and "a \<or> k = 0"
    unfolding dotdot_stack_def by blast
  then have "norm_segments a p = replicate k ''..'' @ gs \<and> list_all good_segment gs \<and> (a \<or> k = 0)"
    by (simp add: norm_segments_def)
  then show ?thesis by blast
qed

lemma norm_False_good: "\<forall>g\<in>set (norm_segments False p). good_segment g"
proof -
  obtain k gs where "norm_segments False p = replicate k ''..'' @ gs"
    and "list_all good_segment gs" and "False \<or> k = 0"
    using norm_shape[of False p] by blast
  then show ?thesis by (simp add: list_all_iff)
qed

lemma good_ne: "good_segment s \<Longrightarrow> s \<noteq> []"
  unfolding good_segment_def by blast

lemma good_join_empty:
  assumes "\<forall>g\<in>set gs. good_segment g"
  shows "(js_join ''/'' gs = []) = (gs = [])"
proof (cases "gs = []")
  case True
  then show ?thesis by simp
next
  case False
  have "\<forall>s\<in>set gs. s \<noteq> []" using assms good_ne by blast
  with False have "js_join ''/'' gs \<noteq> []" by (rule js_join_nonempty)
  with False show ?thesis by simp
qed

lemma path_normalize_absolute:
  assumes "p \<noteq> []" "hd p = CHR ''/''"
  shows "path_normalize p =
           (if norm_segments False p = [] then ''/''
            else abs_path (norm_segments False p) @ (if last p = CHR ''/'' then ''/'' else []))"
  using assms good_join_empty[OF norm_False_good, of p]
  by (simp add: path_normalize_def Let_def normalizeString_def abs_path_def)

lemma path_resolve_absolute:
  assumes "p \<noteq> []" "hd p = CHR ''/''"
  shows "path_resolve wd p = abs_path (norm_segments False p)"
  using assms norm_segments_slash[of False p]
  by (simp add: path_resolve_def Let_def normalizeString_def abs_path_def)

lemma path_join_item:
  assumes "\<forall>s\<in>set gs. good_segment s" "good_segment item"
  shows "path_join (abs_path gs) item = abs_path (gs @ [item])"
proof -
  let ?j = "abs_path gs @ ''/'' @ item"
  have item: "item \<noteq> []" "CHR ''/'' \<notin> set item" using assms(2) by (auto simp: good_segment_def)
  have segs: "norm_segments False ?j = gs @ [item]"
    using norm_segments_append[of False "abs_path gs" item] assms item
    by (simp add: fold_abs split_noslash norm_step_good)
  have l: "last ?j \<noteq> CHR ''/''" using item by (metis append_assoc last_appendR last_in_set)
  have "path_normalize ?j = abs_path (gs @ [item])"
    using path_normalize_absolute[of ?j] segs l by simp
  then show ?thesis using item by (simp add: path_join_def Let_def)
qed

lemma drop_common_prefix: "drop_common xs (xs @ ys) = ([], ys)"
proof (induction xs)
  case Nil
  then show ?case by (cases ys) auto
next
  case (Cons x xs)
  then show ?case by simp
qed

lemma path_relative_under:
  assumes "\<forall>s\<in>set rs. good_segment s" "\<forall>s\<in>set p. good_segment s"
  shows "path_relative wd (abs_path rs) (abs_path (rs @ p)) = js_join ''/'' p"
proof (cases "p = []")
  case True
  then show ?thesis by (simp add: path_relative_def)
next
  case False
  have g: "\<forall>s\<in>set (rs @ p). good_segment s" using assms by auto
  have ne: "abs_path rs \<noteq> abs_path (rs @ p)"
    using norm_segments_abs[OF assms(1), of False] norm_segments_abs[OF g, of False] False
    by (metis append_self_conv)
  show ?thesis
    using ne assms g
    by (simp add: path_relative_def Let_def path_resolve_abs norm_segments_abs drop_common_prefix)
qed

section \<open>The extraction directory\<close>

lemma name_first_plain: "name_first c \<Longrightarrow> c \<noteq> CHR ''.'' \<and> c \<noteq> CHR ''/'' \<and> c \<noteq> CHR ''@''"
  by (auto simp: name_first_def is_alnum_def)

lemma match_name_first: "match_name s \<Longrightarrow> s \<noteq> [] \<and> name_first (hd s)"
  by (cases s) (auto simp: match_name_def)

lemma pattern_first:
  assumes "match_package_pattern n"
  shows "n \<noteq> [] \<and> (name_first (hd n) \<or> hd n = CHR ''@'')"
proof -
  from assms consider "match_name n" | i where "1 \<le> i" "i < length n" "n ! 0 = CHR ''@''"
    by (auto simp: match_package_pattern_def list_ex_iff)
  then show ?thesis
  proof cases
    case 1
    then show ?thesis using match_name_first by blast
  next
    case 2
    then have "n \<noteq> []" by auto
    then show ?thesis using 2(3) by (simp add: hd_conv_nth)
  qed
qed

lemma sanitize_noslash: "CHR ''/'' \<notin> set (sanitizeName n)"
  by (auto simp: sanitizeName_def)

lemma sanitize_hd:
  assumes "match_package_pattern n"
  shows "sanitizeName n \<noteq> [] \<and> hd (sanitizeName n) \<noteq> CHR ''.''"
proof -
  from pattern_first[OF assms] obtain c cs where n: "n = c # cs" and c: "name_first c \<or> c = CHR ''@''"
    by (cases n) auto
  have "hd (sanitizeName n) = (if c = CHR ''@'' \<or> c = CHR ''/'' then CHR ''_'' else c)"
    using n by (simp add: sanitizeName_def)
  then show ?thesis using c n name_first_plain[of c] by (auto simp: sanitizeName_def)
qed

lemma good_segmentI: "s \<noteq> [] \<Longrightarrow> CHR ''/'' \<notin> set s \<Longrightarrow> hd s \<noteq> CHR ''.'' \<Longrightarrow> good_segment s"
  unfolding good_segment_def by (cases s) auto

lemma sanitize_good: "validatePackageName n = Inr () \<Longrightarrow> good_segment (sanitizeName n)"
proof -
  assume "validatePackageName n = Inr ()"
  then have "match_package_pattern n" by (auto simp: validatePackageName_def split: if_splits)
  then show ?thesis using sanitize_hd sanitize_noslash by (intro good_segmentI) auto
qed

lemma abs_path_inj:
  assumes "\<forall>s\<in>set xs. good_segment s" "\<forall>s\<in>set ys. good_segment s" "abs_path xs = abs_path ys"
  shows "xs = ys"
proof -
  have "xs = norm_segments False (abs_path xs)"
    using norm_segments_abs[OF assms(1), of False] by (rule sym)
  also have "\<dots> = norm_segments False (abs_path ys)" by (simp only: assms(3))
  also have "\<dots> = ys" using assms(2) by (rule norm_segments_abs)
  finally show ?thesis .
qed

lemma extractPath_abs:
  assumes "validatePackageName n = Inr ()" and "list_all good_segment ds"
  shows "extractPath_of (abs_path ds) n = abs_path (ds @ [sanitizeName n])"
proof -
  have g: "good_segment (sanitizeName n)" using assms(1) by (rule sanitize_good)
  have ds: "\<forall>s\<in>set ds. good_segment s" using assms(2) by (simp add: list_all_iff)
  show ?thesis using path_join_item[OF ds g] by (simp add: extractPath_of_def)
qed

text \<open>
  Claim C10. For a package name that \<^verbatim>\<open>validatePackageName\<close> accepts and a temporary directory
  given by an absolute path in normal form: the sanitised name is the name with every \<open>@\<close>
  and every slash replaced by an underscore; it is not empty, holds no slash and is neither
  \<open>.\<close> nor \<open>..\<close>; the extraction directory, \<^verbatim>\<open>path.join\<close> of the temporary directory and the
  sanitised name, is the temporary directory followed by the sanitised name as its one
  further segment, so it is an immediate child of the temporary directory and differs from
  it.
\<close>

theorem extractPath_immediate_child:
  assumes "validatePackageName n = Inr ()" and "list_all good_segment ds"
  shows "sanitizeName n = map (\<lambda>c. if c = CHR ''@'' \<or> c = CHR ''/'' then CHR ''_'' else c) n \<and>
         sanitizeName n \<noteq> [] \<and> CHR ''/'' \<notin> set (sanitizeName n) \<and>
         sanitizeName n \<noteq> ''.'' \<and> sanitizeName n \<noteq> ''..'' \<and>
         extractPath_of (abs_path ds) n = path_join (abs_path ds) (sanitizeName n) \<and>
         extractPath_of (abs_path ds) n = abs_path (ds @ [sanitizeName n]) \<and>
         extractPath_of (abs_path ds) n
           = (if ds = [] then CHR ''/'' # sanitizeName n else abs_path ds @ ''/'' @ sanitizeName n) \<and>
         norm_segments False (extractPath_of (abs_path ds) n)
           = norm_segments False (abs_path ds) @ [sanitizeName n] \<and>
         extractPath_of (abs_path ds) n \<noteq> abs_path ds"
proof -
  have g: "good_segment (sanitizeName n)" using assms(1) by (rule sanitize_good)
  have ds: "\<forall>s\<in>set ds. good_segment s" using assms(2) by (simp add: list_all_iff)
  have e: "extractPath_of (abs_path ds) n = abs_path (ds @ [sanitizeName n])"
    using assms by (rule extractPath_abs)
  have all: "\<forall>s\<in>set (ds @ [sanitizeName n]). good_segment s" using ds g by simp
  have ne: "abs_path (ds @ [sanitizeName n]) \<noteq> abs_path ds"
  proof
    assume "abs_path (ds @ [sanitizeName n]) = abs_path ds"
    with all ds have "ds @ [sanitizeName n] = ds" by (rule abs_path_inj)
    then show False by simp
  qed
  have g4: "sanitizeName n \<noteq> [] \<and> CHR ''/'' \<notin> set (sanitizeName n) \<and>
         sanitizeName n \<noteq> ''.'' \<and> sanitizeName n \<noteq> ''..''"
    using g unfolding good_segment_def .
  have segs: "norm_segments False (extractPath_of (abs_path ds) n)
           = norm_segments False (abs_path ds) @ [sanitizeName n]"
    unfolding e norm_segments_abs[OF all] norm_segments_abs[OF ds] ..
  have str: "extractPath_of (abs_path ds) n
           = (if ds = [] then CHR ''/'' # sanitizeName n else abs_path ds @ ''/'' @ sanitizeName n)"
    unfolding e by (rule abs_path_snoc)
  have m: "sanitizeName n = map (\<lambda>c. if c = CHR ''@'' \<or> c = CHR ''/'' then CHR ''_'' else c) n"
    by (rule sanitizeName_def)
  have j: "extractPath_of (abs_path ds) n = path_join (abs_path ds) (sanitizeName n)"
    by (rule extractPath_of_def)
  from m g4 j e str segs ne show ?thesis by (intro conjI) simp_all
qed

text \<open>
  A scoped name in the temporary directory \<^verbatim>\<open>/app/temp\<close>.
\<close>

theorem extractPath_immediate_child_witness:
  "validatePackageName ''@babel/core'' = Inr () \<and> list_all good_segment [''app'', ''temp''] \<and>
   sanitizeName ''@babel/core'' = ''_babel_core'' \<and>
   extractPath_of ''/app/temp'' ''@babel/core'' = ''/app/temp/_babel_core''"
proof -
  have v: "validatePackageName ''@babel/core'' = Inr ()"
    by (simp add: validatePackageName_def match_package_pattern_def match_name_def name_first_def
          name_rest_def is_alnum_def upt_rec NUL_def NEWLINE_def)
  have g: "list_all good_segment [''app'', ''temp'']" by (simp add: good_segment_def)
  have a: "abs_path [''app'', ''temp''] = ''/app/temp''" by (simp add: abs_path_def)
  note c = extractPath_immediate_child[OF v g]
  have s: "sanitizeName ''@babel/core'' = ''_babel_core''"
    using c[THEN conjunct1] by simp
  have "extractPath_of (abs_path [''app'', ''temp'']) ''@babel/core''
          = abs_path ([''app'', ''temp''] @ [sanitizeName ''@babel/core''])"
    using c by (elim conjE)
  then have "extractPath_of ''/app/temp'' ''@babel/core'' = ''/app/temp/_babel_core''"
    unfolding a s by (simp add: abs_path_def)
  note this s
  with v g show ?thesis by simp
qed

section \<open>The walks and the entries of a tree\<close>

lemma entries_of_Cons:
  "entries_of ((name, node) # rest) = ([name], node) # map (under name) (entries_under node) @ entries_of rest"
  by (simp add: under_def case_prod_beta)

lemma entries_paths:
  "wf_tree node \<Longrightarrow> \<forall>e\<in>set (entries_under node). fst e \<noteq> [] \<and> list_all good_segment (fst e)"
  "wf_items items \<Longrightarrow> \<forall>e\<in>set (entries_of items). fst e \<noteq> [] \<and> list_all good_segment (fst e) \<and> hd (fst e) \<in> fst ` set items"
proof (induction node and items rule: entries_under_entries_of.induct)
  case (8 name node rest)
  from "8.prems" have w: "good_segment name" "wf_tree node" "wf_items rest" by simp_all
  note ih1 = "8.IH"(1)[OF w(2)] and ih2 = "8.IH"(2)[OF w(3)]
  show ?case
    unfolding entries_of_Cons using w(1) ih1 ih2 by (auto simp: under_def)
qed simp_all

lemma entries_distinct:
  "wf_tree node \<Longrightarrow> distinct (map fst (entries_under node))"
  "wf_items items \<Longrightarrow> distinct (map fst items) \<Longrightarrow> distinct (map fst (entries_of items))"
proof (induction node and items rule: entries_under_entries_of.induct)
  case (1 items)
  then show ?case by simp
next
  case (8 name node rest)
  from "8.prems" have w: "good_segment name" "wf_tree node" "wf_items rest"
    and d: "name \<notin> fst ` set rest" "distinct (map fst rest)" by simp_all
  note ih1 = "8.IH"(1)[OF w(2)] and ih2 = "8.IH"(2)[OF w(3) d(2)]
  have sub_ne: "\<forall>e\<in>set (entries_under node). fst e \<noteq> []" using entries_paths(1)[OF w(2)] by blast
  have rest_hd: "\<forall>e\<in>set (entries_of rest). fst e \<noteq> [] \<and> hd (fst e) \<in> fst ` set rest"
    using entries_paths(2)[OF w(3)] by blast
  have m: "map fst (entries_of ((name, node) # rest))
      = [name] # map ((#) name) (map fst (entries_under node)) @ map fst (entries_of rest)"
    unfolding entries_of_Cons by (simp add: under_def)
  have d1: "distinct (map ((#) name) (map fst (entries_under node)))"
    by (subst distinct_map) (simp add: ih1 inj_on_def)
  have n1: "[name] \<notin> set (map ((#) name) (map fst (entries_under node)))"
    using sub_ne by auto
  have n2: "[name] \<notin> set (map fst (entries_of rest))"
    using rest_hd d(1) by force
  have n3: "set (map ((#) name) (map fst (entries_under node))) \<inter> set (map fst (entries_of rest)) = {}"
    using rest_hd d(1) by force
  show ?case
    unfolding m using d1 n1 n2 n3 ih2 by (simp del: map_map)
qed simp_all

lemma emit_all_under:
  "fst e \<noteq> [] \<Longrightarrow>
   emit_all rs (under name e) = (if startsWith name ''.'' then [] else emit_all (rs @ [name]) e)"
  by (simp add: emit_all_def listed_entry_def under_def)

lemma concat_emit_all_under:
  assumes "\<forall>e\<in>set es. fst e \<noteq> []"
  shows "concat (map (emit_all rs \<circ> under name) es)
           = (if startsWith name ''.'' then [] else concat (map (emit_all (rs @ [name])) es))"
  using assms by (induction es) (simp_all add: emit_all_under)

lemma entries_under_leaf: "\<not> (\<exists>items. node = Dir items) \<Longrightarrow> entries_under node = []"
  by (cases node) auto

lemma walk_all_emit:
  "currentDir = abs_path rs \<Longrightarrow> list_all good_segment rs \<Longrightarrow> wf_tree node \<Longrightarrow>
     walk_all currentDir node = concat (map (emit_all rs) (entries_under node))"
  "currentDir = abs_path rs \<Longrightarrow> list_all good_segment rs \<Longrightarrow> wf_items items \<Longrightarrow>
     walk_all_items currentDir items = concat (map (emit_all rs) (entries_of items))"
proof (induction currentDir node and currentDir items arbitrary: rs and rs
        rule: walk_all_walk_all_items.induct)
  case (8 currentDir item node rest)
  from "8.prems" have w: "good_segment item" "wf_tree node" "wf_items rest" by simp_all
  have rs: "\<forall>s\<in>set rs. good_segment s" using "8.prems"(2) by (simp add: list_all_iff)
  have full: "path_join currentDir item = abs_path (rs @ [item])"
    using path_join_item[OF rs w(1)] "8.prems"(1) by simp
  have rs': "list_all good_segment (rs @ [item])" using "8.prems"(2) w(1) by simp
  have rest: "walk_all_items currentDir rest = concat (map (emit_all rs) (entries_of rest))"
    using "8.IH"(2)[OF refl "8.prems"(1,2) w(3)] .
  have sub_ne: "\<forall>e\<in>set (entries_under node). fst e \<noteq> []" using entries_paths(1)[OF w(2)] by blast
  have here: "emit_all rs ([item], node) = (if is_file node then [abs_path (rs @ [item])] else [])"
    by (simp add: emit_all_def listed_entry_def)
  show ?case
  proof (cases "is_directory node \<and> \<not> startsWith item ''.''")
    case True
    then have nf: "\<not> is_file node" by (cases node) auto
    have "walk_all (path_join currentDir item) node = concat (map (emit_all (rs @ [item])) (entries_under node))"
      using "8.IH"(1)[OF refl True full rs' w(2)] .
    then show ?thesis
      unfolding entries_of_Cons using True nf rest here full sub_ne
      by (simp add: concat_emit_all_under Let_def)
  next
    case False
    have sub: "concat (map (emit_all rs \<circ> under item) (entries_under node)) = []"
    proof (cases "is_directory node")
      case True
      with False have "startsWith item ''.''" by simp
      then show ?thesis using sub_ne by (simp add: concat_emit_all_under)
    next
      case False
      then have "entries_under node = []" by (cases node) auto
      then show ?thesis by simp
    qed
    have c: "(is_directory node \<and> \<not> startsWith item ''.'') = False" using False by simp
    show ?thesis
      unfolding entries_of_Cons walk_all.simps walk_all_items.simps c
      using rest here full sub by (simp add: Let_def)
  qed
qed simp_all

section \<open>The file listing\<close>

lemma concat_emit_all:
  "concat (map (emit_all rs) es) = map (\<lambda>e. abs_path (rs @ fst e)) (filter listed_entry es)"
  by (induction es) (simp_all add: emit_all_def)

lemma js_join_inj:
  assumes "p \<noteq> []" "q \<noteq> []" "list_all good_segment p" "list_all good_segment q"
    and "js_join ''/'' p = js_join ''/'' q"
  shows "p = q"
proof -
  have np: "\<forall>s\<in>set p. CHR ''/'' \<notin> set s" using assms(3) good_noslash by (simp add: list_all_iff)
  have nq: "\<forall>s\<in>set q. CHR ''/'' \<notin> set s" using assms(4) good_noslash by (simp add: list_all_iff)
  have "p = split_slash (js_join ''/'' p)" using split_join[OF assms(1) np] by (rule sym)
  also have "\<dots> = split_slash (js_join ''/'' q)" by (simp only: assms(5))
  also have "\<dots> = q" using assms(2) nq by (rule split_join)
  finally show ?thesis .
qed

lemma listing_of_tree:
  assumes "list_all good_segment rs" "wf_tree tree"
  shows "map (path_relative wd (abs_path rs)) (walk_all (abs_path rs) tree)
           = map (\<lambda>e. js_join ''/'' (fst e)) (filter listed_entry (entries_under tree))"
proof -
  have rs: "\<forall>s\<in>set rs. good_segment s" using assms(1) by (simp add: list_all_iff)
  have "\<forall>e\<in>set (filter listed_entry (entries_under tree)).
          path_relative wd (abs_path rs) (abs_path (rs @ fst e)) = js_join ''/'' (fst e)"
  proof
    fix e
    assume "e \<in> set (filter listed_entry (entries_under tree))"
    then have "e \<in> set (entries_under tree)" by simp
    then have "\<forall>s\<in>set (fst e). good_segment s"
      using entries_paths(1)[OF assms(2)] by (simp add: list_all_iff)
    then show "path_relative wd (abs_path rs) (abs_path (rs @ fst e)) = js_join ''/'' (fst e)"
      by (rule path_relative_under[OF rs])
  qed
  then show ?thesis
    using walk_all_emit(1)[OF refl assms] by (simp add: concat_emit_all)
qed

lemma listing_distinct:
  assumes "wf_tree tree"
  shows "distinct (map (\<lambda>e. js_join ''/'' (fst e)) (filter listed_entry (entries_under tree)))"
proof -
  let ?es = "filter listed_entry (entries_under tree)"
  have d: "distinct (map fst ?es)"
    using entries_distinct(1)[OF assms] by (rule distinct_map_filter)
  have inj: "inj_on (js_join ''/'') (set (map fst ?es))"
  proof (rule inj_onI)
    fix p q
    assume "p \<in> set (map fst ?es)" "q \<in> set (map fst ?es)" and eq: "js_join ''/'' p = js_join ''/'' q"
    then have "p \<noteq> [] \<and> list_all good_segment p" "q \<noteq> [] \<and> list_all good_segment q"
      using entries_paths(1)[OF assms] by auto
    then show "p = q" using eq js_join_inj by blast
  qed
  have "distinct (map (js_join ''/'') (map fst ?es))"
    using d inj by (simp only: distinct_map)
  then show ?thesis by (simp add: comp_def)
qed

lemma listing_set:
  "set (map (\<lambda>e. js_join ''/'' (fst e)) (filter listed_entry (entries_under tree)))
     = {js_join ''/'' p | p n. (p, n) \<in> set (entries_under tree) \<and> is_file n \<and>
          (\<forall>dir\<in>set (butlast p). \<not> startsWith dir ''.'')}"
proof (intro set_eqI iffI)
  fix x
  assume "x \<in> set (map (\<lambda>e. js_join ''/'' (fst e)) (filter listed_entry (entries_under tree)))"
  then obtain e where e: "e \<in> set (entries_under tree)" "listed_entry e" "x = js_join ''/'' (fst e)"
    by auto
  then have "(fst e, snd e) \<in> set (entries_under tree) \<and> is_file (snd e) \<and>
      (\<forall>dir\<in>set (butlast (fst e)). \<not> startsWith dir ''.'')"
    by (simp add: listed_entry_def list_all_iff)
  with e(3) show "x \<in> {js_join ''/'' p | p n. (p, n) \<in> set (entries_under tree) \<and> is_file n \<and>
          (\<forall>dir\<in>set (butlast p). \<not> startsWith dir ''.'')}"
    by blast
next
  fix x
  assume "x \<in> {js_join ''/'' p | p n. (p, n) \<in> set (entries_under tree) \<and> is_file n \<and>
          (\<forall>dir\<in>set (butlast p). \<not> startsWith dir ''.'')}"
  then obtain p n where pn: "(p, n) \<in> set (entries_under tree)" "is_file n"
      "\<forall>dir\<in>set (butlast p). \<not> startsWith dir ''.''" "x = js_join ''/'' p"
    by blast
  then have "listed_entry (p, n)" by (simp add: listed_entry_def list_all_iff)
  with pn(1) have "(p, n) \<in> set (filter listed_entry (entries_under tree))" by simp
  then have "js_join ''/'' (fst (p, n)) \<in> (\<lambda>e. js_join ''/'' (fst e)) ` set (filter listed_entry (entries_under tree))"
    by (rule imageI)
  with pn(4) show "x \<in> set (map (\<lambda>e. js_join ''/'' (fst e)) (filter listed_entry (entries_under tree)))"
    by simp
qed

lemma fileList_of_tree:
  assumes "list_all good_segment rs" "node_at fs (abs_path rs) = Some tree" "wf_tree tree"
  shows "fileList_of wd fs (abs_path rs)
           = sort (map (\<lambda>e. js_join ''/'' (fst e)) (filter listed_entry (entries_under tree)))"
  using listing_of_tree[OF assms(1,3), of wd] assms(2)
  by (simp add: fileList_of_def getAllFiles_def)

lemma validate_truthy: "validatePackageName n = Inr () \<Longrightarrow> truthy n"
proof -
  assume "validatePackageName n = Inr ()"
  then have "match_package_pattern n" by (auto simp: validatePackageName_def split: if_splits)
  then show ?thesis using pattern_first by (simp add: truthy_def)
qed

lemma is_file_explicit: "is_file n = ((\<exists>c. n = File c) \<or> (\<exists>m. n = Unreadable m))"
  by (cases n) simp_all

lemma startsWith_dot: "startsWith dir ''.'' = (\<exists>r. dir = CHR ''.'' # r)"
  by (cases dir) (auto simp: startsWith_def)

text \<open>
  Claim C6, as the code has it. When the name is valid, the registry answers with the
  metadata and the archive is unpacked, \<^verbatim>\<open>list_package_files\<close> returns the package line, the
  count of the listed paths and the listed paths, one on a line. The listed paths are
  sorted, every one appears once, and they are the paths, relative to the extraction
  directory, of the regular files below it that no directory with a name starting with a
  dot leads to (the walk does not enter such a directory, nor one that cannot be listed).
\<close>

theorem listPackageFiles_listing:
  assumes "validatePackageName (lf_packageName args) = Inr ()"
    and "fetchPackageInfo w (lf_packageName args) (lf_version args) = Inr info"
    and "pi_dist info = Some d"
    and "tempDir w = abs_path ts" and "list_all good_segment ts"
    and "download w (tarball d) (extractPath_of (tempDir w) (lf_packageName args)) = Inr fs"
    and "node_at fs (extractPath_of (tempDir w) (lf_packageName args)) = Some tree"
    and "wf_tree tree"
  shows "\<exists>fileList.
      listPackageFiles w args
        = Inr (''Package: '' @ lf_packageName args @ ''@'' @ pi_version info @ [NEWLINE]
               @ ''Total files: '' @ show_nat (length fileList) @ [NEWLINE, NEWLINE]
               @ ''Files:'' @ [NEWLINE] @ js_join [NEWLINE] fileList) \<and>
      sorted fileList \<and> distinct fileList \<and>
      set fileList = {js_join ''/'' p | p n. (p, n) \<in> set (entries_under tree) \<and>
                        ((\<exists>c. n = File c) \<or> (\<exists>m. n = Unreadable m)) \<and>
                        (\<forall>dir\<in>set (butlast p). \<not> (\<exists>r. dir = CHR ''.'' # r))}"
proof -
  let ?root = "extractPath_of (tempDir w) (lf_packageName args)"
  let ?L = "sort (map (\<lambda>e. js_join ''/'' (fst e)) (filter listed_entry (entries_under tree)))"
  have root: "?root = abs_path (ts @ [sanitizeName (lf_packageName args)])"
    using extractPath_abs[OF assms(1,5)] assms(4) by simp
  have good: "list_all good_segment (ts @ [sanitizeName (lf_packageName args)])"
    using assms(5) sanitize_good[OF assms(1)] by simp
  have L: "fileList_of (cwd w) fs ?root = ?L"
    using fileList_of_tree[OF good _ assms(8), of fs "cwd w"] assms(7) root by simp
  have att: "list_files_attempt w args
      = Inr (listing_text (lf_packageName args) (pi_version info) ?L)"
    using assms(2,3,6) L by (simp add: list_files_attempt_def downloadAndExtract_def Let_def)
  have res: "listPackageFiles w args = Inr (listing_text (lf_packageName args) (pi_version info) ?L)"
    using validate_truthy[OF assms(1)] assms(1) att by (simp add: listPackageFiles_def)
  have "sorted ?L" by simp
  moreover have "distinct ?L" using listing_distinct[OF assms(8)] by simp
  moreover have "set ?L = {js_join ''/'' p | p n. (p, n) \<in> set (entries_under tree) \<and>
                        ((\<exists>c. n = File c) \<or> (\<exists>m. n = Unreadable m)) \<and>
                        (\<forall>dir\<in>set (butlast p). \<not> (\<exists>r. dir = CHR ''.'' # r))}"
    using listing_set[of tree] unfolding is_file_explicit startsWith_dot by simp
  ultimately show ?thesis using res unfolding listing_text_def by blast
qed

section \<open>The code-file walk\<close>

lemma emit_code_under:
  "fst e \<noteq> [] \<Longrightarrow>
   emit_code rs (under name e) = (if shouldSkipDirectory name then [] else emit_code (rs @ [name]) e)"
  by (simp add: emit_code_def code_entry_def under_def)

lemma concat_emit_code_under:
  assumes "\<forall>e\<in>set es. fst e \<noteq> []"
  shows "concat (map (emit_code rs \<circ> under name) es)
           = (if shouldSkipDirectory name then [] else concat (map (emit_code (rs @ [name])) es))"
  using assms by (induction es) (simp_all add: emit_code_under)

lemma emit_code_here:
  "emit_code rs ([item], node)
     = (if is_file node \<and> isCodeFile item
        then (case node of File content \<Rightarrow> [\<lparr>cf_path = abs_path (rs @ [item]), cf_content = content\<rparr>]
              | other \<Rightarrow> [])
        else [])"
  by (cases node) (simp_all add: emit_code_def code_entry_def)

lemma walk_code_emit:
  "currentDir = abs_path rs \<Longrightarrow> list_all good_segment rs \<Longrightarrow> wf_tree node \<Longrightarrow>
     walk_code currentDir node = concat (map (emit_code rs) (entries_under node))"
  "currentDir = abs_path rs \<Longrightarrow> list_all good_segment rs \<Longrightarrow> wf_items items \<Longrightarrow>
     walk_code_items currentDir items = concat (map (emit_code rs) (entries_of items))"
proof (induction currentDir node and currentDir items arbitrary: rs and rs
        rule: walk_code_walk_code_items.induct)
  case (8 currentDir item node rest)
  from "8.prems" have w: "good_segment item" "wf_tree node" "wf_items rest" by simp_all
  have rs: "\<forall>s\<in>set rs. good_segment s" using "8.prems"(2) by (simp add: list_all_iff)
  have full: "path_join currentDir item = abs_path (rs @ [item])"
    using path_join_item[OF rs w(1)] "8.prems"(1) by simp
  have rs': "list_all good_segment (rs @ [item])" using "8.prems"(2) w(1) by simp
  have rest: "walk_code_items currentDir rest = concat (map (emit_code rs) (entries_of rest))"
    using "8.IH"(2)[OF refl "8.prems"(1,2) w(3)] .
  have sub_ne: "\<forall>e\<in>set (entries_under node). fst e \<noteq> []" using entries_paths(1)[OF w(2)] by blast
  note here = emit_code_here[of rs item node]
  show ?case
  proof (cases "is_directory node \<and> \<not> shouldSkipDirectory item")
    case True
    then have nf: "is_file node = False" by (cases node) auto
    have "walk_code (path_join currentDir item) node = concat (map (emit_code (rs @ [item])) (entries_under node))"
      using "8.IH"(1)[OF refl True full rs' w(2)] .
    then show ?thesis
      unfolding entries_of_Cons using True nf rest here full sub_ne
      by (simp add: concat_emit_code_under Let_def)
  next
    case False
    have sub: "concat (map (emit_code rs \<circ> under item) (entries_under node)) = []"
    proof (cases "is_directory node")
      case True
      with False have "shouldSkipDirectory item" by simp
      then show ?thesis using sub_ne by (simp add: concat_emit_code_under)
    next
      case False
      then have "entries_under node = []" by (cases node) auto
      then show ?thesis by simp
    qed
    have c: "(is_directory node \<and> \<not> shouldSkipDirectory item) = False" using False by simp
    show ?thesis
      unfolding entries_of_Cons walk_code.simps walk_code_items.simps c
      using rest here full sub by (simp add: Let_def)
  qed
qed simp_all

lemma code_set:
  "set (concat (map (emit_code rs) es))
     = {\<lparr>cf_path = abs_path (rs @ p), cf_content = c\<rparr> | p c.
          (p, File c) \<in> set es \<and> isCodeFile (last p) \<and>
          (\<forall>dir\<in>set (butlast p). \<not> shouldSkipDirectory dir)}"
proof (intro set_eqI iffI)
  fix x
  assume "x \<in> set (concat (map (emit_code rs) es))"
  then obtain e where e: "e \<in> set es" "x \<in> set (emit_code rs e)" by auto
  then have ce: "code_entry e" and x: "x = \<lparr>cf_path = abs_path (rs @ fst e), cf_content = file_text (snd e)\<rparr>"
    by (auto simp: emit_code_def split: if_splits)
  from ce obtain c where c: "snd e = File c" by (cases "snd e") (auto simp: code_entry_def)
  then have "(fst e, File c) \<in> set es" using e(1) by (metis prod.collapse)
  moreover have "isCodeFile (last (fst e)) \<and> (\<forall>dir\<in>set (butlast (fst e)). \<not> shouldSkipDirectory dir)"
    using ce by (simp add: code_entry_def list_all_iff)
  moreover have "x = \<lparr>cf_path = abs_path (rs @ fst e), cf_content = c\<rparr>" using x c by simp
  ultimately show "x \<in> {\<lparr>cf_path = abs_path (rs @ p), cf_content = c\<rparr> | p c.
          (p, File c) \<in> set es \<and> isCodeFile (last p) \<and>
          (\<forall>dir\<in>set (butlast p). \<not> shouldSkipDirectory dir)}"
    by blast
next
  fix x
  assume "x \<in> {\<lparr>cf_path = abs_path (rs @ p), cf_content = c\<rparr> | p c.
          (p, File c) \<in> set es \<and> isCodeFile (last p) \<and>
          (\<forall>dir\<in>set (butlast p). \<not> shouldSkipDirectory dir)}"
  then obtain p c where pc: "(p, File c) \<in> set es" "isCodeFile (last p)"
      "\<forall>dir\<in>set (butlast p). \<not> shouldSkipDirectory dir"
      "x = \<lparr>cf_path = abs_path (rs @ p), cf_content = c\<rparr>"
    by blast
  then have "code_entry (p, File c)" by (simp add: code_entry_def list_all_iff)
  then have "x \<in> set (emit_code rs (p, File c))" using pc(4) by (simp add: emit_code_def)
  with pc(1) show "x \<in> set (concat (map (emit_code rs) es))" by auto
qed

lemma isCodeFile_explicit:
  "isCodeFile fileName
     = (toLowerCase (path_extname fileName)
          \<in> {''.js'', ''.ts'', ''.jsx'', ''.tsx'', ''.mjs'', ''.cjs'', ''.json''})"
  by (simp add: isCodeFile_def CODE_EXTENSIONS_def)

lemma shouldSkipDirectory_explicit:
  "shouldSkipDirectory dirName
     = ((\<exists>r. dirName = CHR ''.'' # r) \<or>
        dirName \<in> {''.git'', ''.svn'', ''.hg'', ''node_modules'', ''.DS_Store'', ''__pycache__''})"
proof -
  have "startsWith dirName ''.'' = (\<exists>r. dirName = CHR ''.'' # r)"
    by (cases dirName) (auto simp: startsWith_def)
  then show ?thesis by (simp add: shouldSkipDirectory_def SKIP_DIRECTORIES_def)
qed

text \<open>
  Claim C8, as the code has it. The walk collects the readable regular files whose lowered
  extension is one of the seven code extensions and that no skipped directory leads to,
  each with its path and its text; a directory is skipped when its name starts with a dot
  or is one of the six listed names. A file whose read fails is passed over.
\<close>

theorem findCodeFiles_collects:
  assumes "list_all good_segment rs" and "node_at fs (abs_path rs) = Some tree" and "wf_tree tree"
  shows "set (findCodeFiles fs (abs_path rs))
           = {\<lparr>cf_path = abs_path (rs @ p), cf_content = c\<rparr> | p c.
                (p, File c) \<in> set (entries_under tree) \<and>
                toLowerCase (path_extname (last p))
                  \<in> {''.js'', ''.ts'', ''.jsx'', ''.tsx'', ''.mjs'', ''.cjs'', ''.json''} \<and>
                (\<forall>dir\<in>set (butlast p).
                   \<not> ((\<exists>r. dir = CHR ''.'' # r) \<or>
                      dir \<in> {''.git'', ''.svn'', ''.hg'', ''node_modules'', ''.DS_Store'',
                              ''__pycache__''}))}"
proof -
  have "set (findCodeFiles fs (abs_path rs))
           = {\<lparr>cf_path = abs_path (rs @ p), cf_content = c\<rparr> | p c.
                (p, File c) \<in> set (entries_under tree) \<and> isCodeFile (last p) \<and>
                (\<forall>dir\<in>set (butlast p). \<not> shouldSkipDirectory dir)}"
    using walk_code_emit(1)[OF refl assms(1,3)] assms(2) code_set[of rs "entries_under tree"]
    by (simp add: findCodeFiles_def)
  then show ?thesis unfolding isCodeFile_explicit shouldSkipDirectory_explicit .
qed

section \<open>Normalised paths and their leading dot-dot segments\<close>

lemma dotdot_ledI: "segs = replicate k ''..'' @ rest \<Longrightarrow> ''..'' \<notin> set rest \<Longrightarrow> dotdot_led segs"
  unfolding dotdot_led_def by blast

lemma dotdot_led_plain: "''..'' \<notin> set segs \<Longrightarrow> dotdot_led segs"
  using dotdot_ledI[of segs 0 segs] by simp

lemma dotdot_led_snoc: "dotdot_led segs \<Longrightarrow> x \<noteq> ''..'' \<Longrightarrow> dotdot_led (segs @ [x])"
proof -
  assume "dotdot_led segs" and x: "x \<noteq> ''..''"
  then obtain k rest where "segs = replicate k ''..'' @ rest" "''..'' \<notin> set rest"
    unfolding dotdot_led_def by blast
  then have "segs @ [x] = replicate k ''..'' @ (rest @ [x])" "''..'' \<notin> set (rest @ [x])"
    using x by auto
  then show ?thesis by (rule dotdot_ledI)
qed

lemma dotdot_led_tail: "dotdot_led (''..'' # segs) \<Longrightarrow> dotdot_led segs"
proof -
  assume "dotdot_led (''..'' # segs)"
  then obtain k rest where kr: "''..'' # segs = replicate k ''..'' @ rest" "''..'' \<notin> set rest"
    unfolding dotdot_led_def by blast
  show ?thesis
  proof (cases k)
    case 0
    with kr(1) have "rest = ''..'' # segs" by simp
    then have "''..'' \<in> set rest" by simp
    with kr(2) show ?thesis by simp
  next
    case (Suc j)
    with kr(1) have "segs = replicate j ''..'' @ rest" by simp
    then show ?thesis using kr(2) by (rule dotdot_ledI)
  qed
qed

lemma dotdot_led_head:
  assumes "dotdot_led (x # segs)" "x \<noteq> ''..''"
  shows "''..'' \<notin> set segs"
proof -
  from assms(1) obtain k rest where kr: "x # segs = replicate k ''..'' @ rest" "''..'' \<notin> set rest"
    unfolding dotdot_led_def by blast
  show ?thesis
  proof (cases k)
    case 0
    with kr show ?thesis by auto
  next
    case (Suc j)
    with kr(1) have "x = ''..''" by simp
    with assms(2) show ?thesis by simp
  qed
qed

lemma dotdot_led_cases:
  assumes "dotdot_led segs" "segs \<noteq> []"
  shows "hd segs = ''..'' \<or> ''..'' \<notin> set segs"
proof -
  from assms(1) obtain k rest where kr: "segs = replicate k ''..'' @ rest" "''..'' \<notin> set rest"
    unfolding dotdot_led_def by blast
  show ?thesis
  proof (cases k)
    case 0
    with kr show ?thesis by simp
  next
    case (Suc j)
    with kr(1) show ?thesis by simp
  qed
qed

lemma split_hd_tl: "split_slash s = hd (split_slash s) # tl (split_slash s)"
  by simp

lemma takeWhile_dotdot:
  assumes "takeWhile (\<lambda>c. c \<noteq> CHR ''/'') s = ''..''"
  shows "s = ''..'' \<or> (\<exists>rest. s = CHR ''.'' # CHR ''.'' # CHR ''/'' # rest)"
proof -
  from assms obtain a s1 where s: "s = a # s1" by (cases s) auto
  with assms have a: "a = CHR ''.''" and t1: "takeWhile (\<lambda>c. c \<noteq> CHR ''/'') s1 = ''.''"
    by (simp_all split: if_splits)
  from t1 obtain b s2 where s1: "s1 = b # s2" by (cases s1) auto
  with t1 have b: "b = CHR ''.''" and t2: "takeWhile (\<lambda>c. c \<noteq> CHR ''/'') s2 = []"
    by (simp_all split: if_splits)
  show ?thesis
  proof (cases s2)
    case Nil
    with s s1 a b show ?thesis by simp
  next
    case (Cons c s3)
    with t2 have "c = CHR ''/''" by (simp split: if_splits)
    with Cons s s1 a b show ?thesis by simp
  qed
qed

lemma hd_split_dotdot:
  "hd (split_slash s) = ''..'' \<Longrightarrow> s = ''..'' \<or> (\<exists>rest. s = CHR ''.'' # CHR ''.'' # CHR ''/'' # rest)"
  using takeWhile_dotdot by (simp add: hd_split)

lemma set_hd_tl: "xs \<noteq> [] \<Longrightarrow> set xs = insert (hd xs) (set (tl xs))"
  by (cases xs) simp_all

lemma split_dotdot_slash: "split_slash (CHR ''.'' # CHR ''.'' # CHR ''/'' # rest) = ''..'' # split_slash rest"
  by simp

lemma split_dotdot_backslash:
  "split_slash (CHR ''.'' # CHR ''.'' # BACKSLASH # rest)
     = (CHR ''.'' # CHR ''.'' # BACKSLASH # hd (split_slash rest)) # tl (split_slash rest)"
  by (simp add: BACKSLASH_def)

lemma led_after_slash:
  assumes "dotdot_led (split_slash (CHR ''.'' # CHR ''.'' # CHR ''/'' # rest))"
  shows "dotdot_led (split_slash rest)"
proof -
  have "dotdot_led (''..'' # split_slash rest)"
    using assms unfolding split_dotdot_slash .
  then show ?thesis by (rule dotdot_led_tail)
qed

lemma notin_hd_tl: "xs \<noteq> [] \<Longrightarrow> hd xs \<noteq> x \<Longrightarrow> x \<notin> set (tl xs) \<Longrightarrow> x \<notin> set xs"
  by (cases xs) auto

lemma led_after_backslash:
  assumes "dotdot_led (split_slash (CHR ''.'' # CHR ''.'' # BACKSLASH # rest))"
  shows "dotdot_led (split_slash rest)"
proof -
  let ?x = "CHR ''.'' # CHR ''.'' # BACKSLASH # hd (split_slash rest)"
  have led: "dotdot_led (?x # tl (split_slash rest))"
    using assms unfolding split_dotdot_backslash .
  have "?x \<noteq> ''..''" by simp
  with led have nt: "''..'' \<notin> set (tl (split_slash rest))" by (rule dotdot_led_head)
  have e: "hd (split_slash rest) # tl (split_slash rest) = split_slash rest"
    by (rule hd_Cons_tl) simp
  show ?thesis
  proof (cases "hd (split_slash rest) = ''..''")
    case True
    have "replicate 1 ''..'' @ tl (split_slash rest) = ''..'' # tl (split_slash rest)" by simp
    also have "\<dots> = split_slash rest" using e unfolding True .
    finally have "split_slash rest = replicate 1 ''..'' @ tl (split_slash rest)" by (rule sym)
    then show ?thesis using nt by (rule dotdot_ledI)
  next
    case False
    have "''..'' \<notin> set (split_slash rest)"
      using split_ne False nt by (rule notin_hd_tl)
    then show ?thesis by (rule dotdot_led_plain)
  qed
qed

lemma led_unstripped:
  assumes "\<not> (a = CHR ''.'' \<and> b = CHR ''.'' \<and> (c = CHR ''/'' \<or> c = BACKSLASH))"
    and "dotdot_led (split_slash (a # b # c # rest))"
  shows "''..'' \<notin> set (split_slash (a # b # c # rest))"
proof -
  have "hd (split_slash (a # b # c # rest)) \<noteq> ''..''"
  proof
    assume "hd (split_slash (a # b # c # rest)) = ''..''"
    from hd_split_dotdot[OF this] have "a = CHR ''.'' \<and> b = CHR ''.'' \<and> c = CHR ''/''" by simp
    with assms(1) show False by simp
  qed
  then show ?thesis
    using dotdot_led_cases[OF assms(2)] by simp
qed

lemma led_short1:
  assumes "dotdot_led (split_slash [v])"
  shows "''..'' \<notin> set (split_slash [v])"
proof -
  have "hd (split_slash [v]) \<noteq> ''..''"
  proof
    assume "hd (split_slash [v]) = ''..''"
    from hd_split_dotdot[OF this] show False by simp
  qed
  then show ?thesis
    using dotdot_led_cases[OF assms] by simp
qed

lemma led_short2:
  assumes "dotdot_led (split_slash [v, vb])"
  shows "[v, vb] = ''..'' \<or> ''..'' \<notin> set (split_slash [v, vb])"
proof (cases "hd (split_slash [v, vb]) = ''..''")
  case True
  from hd_split_dotdot[OF this] have "[v, vb] = ''..''" by simp
  then show ?thesis by simp
next
  case False
  then have "''..'' \<notin> set (split_slash [v, vb])"
    using dotdot_led_cases[OF assms] by simp
  then show ?thesis by simp
qed

lemma strip_keeps:
  "dotdot_led (split_slash s) \<Longrightarrow>
     strip_dotdot s = ''..'' \<or> ''..'' \<notin> set (split_slash (strip_dotdot s))"
proof (induction s rule: strip_dotdot.induct)
  case (1 a b c rest)
  show ?case
  proof (cases "a = CHR ''.'' \<and> b = CHR ''.'' \<and> (c = CHR ''/'' \<or> c = BACKSLASH)")
    case True
    then have ab: "a = CHR ''.''" "b = CHR ''.''" by simp_all
    have "dotdot_led (split_slash rest)"
    proof (cases "c = CHR ''/''")
      case True
      show ?thesis using "1.prems" unfolding ab True by (rule led_after_slash)
    next
      case False
      with True have c: "c = BACKSLASH" by simp
      show ?thesis using "1.prems" unfolding ab c by (rule led_after_backslash)
    qed
    from "1.IH"[OF True this]
    have "strip_dotdot rest = ''..'' \<or> ''..'' \<notin> set (split_slash (strip_dotdot rest))" .
    moreover have "strip_dotdot (a # b # c # rest) = strip_dotdot rest"
    proof -
      from True have ct: "(a = CHR ''.'' \<and> b = CHR ''.'' \<and> (c = CHR ''/'' \<or> c = BACKSLASH)) = True"
        by (rule iffD2[OF eq_True])
      show ?thesis by (simp only: strip_dotdot.simps ct if_True)
    qed
    ultimately show ?thesis by (simp only:)
  next
    case False
    then have cf: "(a = CHR ''.'' \<and> b = CHR ''.'' \<and> (c = CHR ''/'' \<or> c = BACKSLASH)) = False"
      by (rule iffD2[OF eq_False])
    have same: "strip_dotdot (a # b # c # rest) = a # b # c # rest"
      by (simp only: strip_dotdot.simps cf if_False)
    have "''..'' \<notin> set (split_slash (a # b # c # rest))"
      using False "1.prems" by (rule led_unstripped)
    then show ?thesis unfolding same by (rule disjI2)
  qed
next
  have "split_slash (strip_dotdot []) = [[]]" by simp
  then have "''..'' \<notin> set (split_slash (strip_dotdot []))" by simp
  then show "strip_dotdot [] = ''..'' \<or> ''..'' \<notin> set (split_slash (strip_dotdot []))"
    by (rule disjI2)
next
  fix v
  assume "dotdot_led (split_slash [v])"
  then have "''..'' \<notin> set (split_slash [v])" by (rule led_short1)
  then have "''..'' \<notin> set (split_slash (strip_dotdot [v]))" by simp
  then show "strip_dotdot [v] = ''..'' \<or> ''..'' \<notin> set (split_slash (strip_dotdot [v]))"
    by (rule disjI2)
next
  fix v vb
  assume "dotdot_led (split_slash [v, vb])"
  then have "[v, vb] = ''..'' \<or> ''..'' \<notin> set (split_slash [v, vb])"
    by (rule led_short2)
  moreover have "strip_dotdot [v, vb] = [v, vb]" by simp
  ultimately show "strip_dotdot [v, vb] = ''..'' \<or> ''..'' \<notin> set (split_slash (strip_dotdot [v, vb]))"
    by (simp only:)
qed

section \<open>Path validation\<close>

lemma dotdot_not_good: "\<not> good_segment ''..''"
  by (simp add: good_segment_def)

lemma good_no_dotdot: "list_all good_segment gs \<Longrightarrow> ''..'' \<notin> set gs"
proof
  assume g: "list_all good_segment gs" and "''..'' \<in> set gs"
  then have "good_segment ''..''" by (simp add: list_all_iff)
  with dotdot_not_good show False by simp
qed

lemma empty_not_dotdot: "[] \<noteq> ''..''"
  by simp

lemma normalized_led: "dotdot_led (split_slash (path_normalize p))"
proof (cases "p = []")
  case True
  have s: "split_slash (path_normalize []) = [''.'']" by (simp add: path_normalize_def)
  have "dotdot_led [''.'']" by (rule dotdot_led_plain) simp
  then show ?thesis unfolding True s .
next
  case False
  define a where "a = (hd p \<noteq> CHR ''/'')"
  obtain k gs where segs: "norm_segments a p = replicate k ''..'' @ gs"
    and gs: "list_all good_segment gs" and ak: "a \<or> k = 0"
    using norm_shape[of a p] by blast
  define j where "j = js_join ''/'' (norm_segments a p)"
  define trail where "trail = (if last p = CHR ''/'' then ''/'' else [])"
  have out: "path_normalize p =
      (if j = [] then (if \<not> a then ''/'' else if last p = CHR ''/'' then ''./'' else ''.'')
       else (if \<not> a then ''/'' else []) @ j @ trail)"
    using False by (simp add: path_normalize_def Let_def normalizeString_def a_def j_def trail_def)
  show ?thesis
  proof (cases "j = []")
    case True
    have n: "''..'' \<notin> set (split_slash ''/'')" "''..'' \<notin> set (split_slash ''./'')"
      "''..'' \<notin> set (split_slash ''.'')" by simp_all
    have "path_normalize p = ''/'' \<or> path_normalize p = ''./'' \<or> path_normalize p = ''.''"
      unfolding out using True by simp
    then have "''..'' \<notin> set (split_slash (path_normalize p))"
    proof (elim disjE)
      assume e: "path_normalize p = ''/''"
      show ?thesis unfolding e by (rule n(1))
    next
      assume e: "path_normalize p = ''./''"
      show ?thesis unfolding e by (rule n(2))
    next
      assume e: "path_normalize p = ''.''"
      show ?thesis unfolding e by (rule n(3))
    qed
    then show ?thesis by (rule dotdot_led_plain)
  next
    case jne: False
    then have ne: "norm_segments a p \<noteq> []" unfolding j_def by auto
    have nodd: "''..'' \<notin> set gs" using gs by (rule good_no_dotdot)
    have noslash: "\<forall>s\<in>set (norm_segments a p). CHR ''/'' \<notin> set s"
    proof
      fix s
      assume "s \<in> set (norm_segments a p)"
      then have "s \<in> set (replicate k ''..'') \<or> s \<in> set gs" unfolding segs by simp
      then show "CHR ''/'' \<notin> set s"
      proof
        assume "s \<in> set (replicate k ''..'')"
        then have "s = ''..''" by simp
        then show ?thesis by simp
      next
        assume "s \<in> set gs"
        then have "good_segment s" using gs by (simp add: list_all_iff)
        then show ?thesis by (rule good_noslash)
      qed
    qed
    have sj: "split_slash j = norm_segments a p"
      unfolding j_def using ne noslash by (rule split_join)
    define t where "t = (if last p = CHR ''/'' then [[]] else ([] :: string list))"
    have sjt: "split_slash (j @ trail) = replicate k ''..'' @ (gs @ t)"
    proof (cases "last p = CHR ''/''")
      case True
      have "split_slash (j @ CHR ''/'' # []) = split_slash j @ split_slash []"
        by (rule split_append)
      then show ?thesis using True by (simp add: trail_def t_def sj segs)
    next
      case False
      then show ?thesis by (simp add: trail_def t_def sj segs)
    qed
    have nt: "''..'' \<notin> set (gs @ t)" using nodd by (simp add: t_def)
    show ?thesis
    proof (cases a)
      case True
      then have e: "path_normalize p = j @ trail" using out jne by simp
      show ?thesis unfolding e using sjt nt by (rule dotdot_ledI)
    next
      case False
      with ak have k: "k = 0" by simp
      have "path_normalize p = CHR ''/'' # (j @ trail)" using out jne False by simp
      then have e: "split_slash (path_normalize p) = [] # (gs @ t)"
        using sjt k by simp
      have "''..'' \<notin> set ([] # (gs @ t))" using nt by simp
      then show ?thesis unfolding e by (rule dotdot_led_plain)
    qed
  qed
qed

lemma norm_step_pop:
  assumes "\<forall>s\<in>set bs. good_segment s"
  shows "norm_step False (rev bs) ''..'' = tl (rev bs)"
proof (cases "rev bs")
  case Nil
  then show ?thesis by (simp add: norm_step_def)
next
  case (Cons x xs)
  then have "x \<in> set bs" by (metis list.set_intros(1) set_rev)
  then have "good_segment x" using assms by simp
  then have "x \<noteq> ''..''" using dotdot_not_good by auto
  then show ?thesis using Cons by (simp add: norm_step_def)
qed

lemma rev_tl_rev: "rev (tl (rev xs)) = butlast xs"
  using butlast_rev[of "rev xs"] by simp

lemma normalized_absolute:
  assumes "p \<noteq> []" "hd p = CHR ''/''"
  shows "path_normalize p \<noteq> [] \<and> hd (path_normalize p) = CHR ''/'' \<and>
         norm_segments False (path_normalize p) = norm_segments False p"
proof (cases "norm_segments False p = []")
  case True
  then have "path_normalize p = ''/''" using path_normalize_absolute[OF assms] by simp
  moreover have "norm_segments False ''/'' = []" by (simp add: norm_segments_def)
  ultimately show ?thesis using True by simp
next
  case False
  have g: "\<forall>s\<in>set (norm_segments False p). good_segment s" by (rule norm_False_good)
  have n: "path_normalize p
      = abs_path (norm_segments False p) @ (if last p = CHR ''/'' then ''/'' else [])"
    using path_normalize_absolute[OF assms] False by simp
  have "norm_segments False (path_normalize p) = norm_segments False (abs_path (norm_segments False p))"
    unfolding n by (simp add: norm_segments_slash)
  also have "\<dots> = norm_segments False p" using g by (rule norm_segments_abs)
  finally show ?thesis unfolding n by simp
qed

lemma resolve_join:
  assumes bs: "\<forall>s\<in>set bs. good_segment s"
    and u: "u = ''..'' \<or> ''..'' \<notin> set (split_slash u)"
  shows "(\<exists>gs. (\<forall>s\<in>set gs. good_segment s) \<and>
            path_resolve wd (path_join (abs_path bs) u) = abs_path (bs @ gs)) \<or>
         path_resolve wd (path_join (abs_path bs) u) = abs_path (butlast bs)"
proof -
  define joined where "joined = (if u = [] then abs_path bs else abs_path bs @ ''/'' @ u)"
  have j: "joined \<noteq> []" "hd joined = CHR ''/''" by (simp_all add: joined_def)
  have pj: "path_join (abs_path bs) u = path_normalize joined"
    using j by (simp add: path_join_def Let_def joined_def)
  note na = normalized_absolute[OF j]
  have res: "path_resolve wd (path_join (abs_path bs) u) = abs_path (norm_segments False joined)"
    unfolding pj using path_resolve_absolute[of "path_normalize joined" wd] na by simp
  show ?thesis
  proof (cases "u = []")
    case True
    then have "norm_segments False joined = bs @ []"
      using norm_segments_abs[OF bs, of False] by (simp add: joined_def)
    then have "path_resolve wd (path_join (abs_path bs) u) = abs_path (bs @ [])"
      using res by simp
    moreover have "\<forall>s\<in>set ([] :: string list). good_segment s" by simp
    ultimately show ?thesis by blast
  next
    case False
    then have seg: "norm_segments False joined = rev (foldl (norm_step False) (rev bs) (split_slash u))"
      using norm_segments_append[of False "abs_path bs" u] fold_abs[OF bs, of False]
      by (simp add: joined_def)
    from u show ?thesis
    proof
      assume "u = ''..''"
      then have "split_slash u = [''..'']" by simp
      then have "norm_segments False joined = butlast bs"
        using seg norm_step_pop[OF bs] by (simp add: rev_tl_rev)
      then show ?thesis using res by simp
    next
      assume nd: "''..'' \<notin> set (split_slash u)"
      have "\<forall>s\<in>set (split_slash u). CHR ''/'' \<notin> set s" using split_segs_noslash by blast
      with nd have g: "\<forall>s\<in>set (kept (split_slash u)). good_segment s" by (rule kept_good)
      have "norm_segments False joined = bs @ kept (split_slash u)"
        using seg fold_no_dotdot[OF nd, of False "rev bs"] by simp
      then have "path_resolve wd (path_join (abs_path bs) u) = abs_path (bs @ kept (split_slash u))"
        using res by simp
      with g show ?thesis by blast
    qed
  qed
qed

lemma abs_path_butlast_shorter:
  assumes "bs \<noteq> []" "\<forall>s\<in>set bs. good_segment s"
  shows "length (abs_path (butlast bs)) < length (abs_path bs)"
proof -
  from assms(1) obtain xs x where b: "bs = xs @ [x]" by (metis rev_exhaust)
  then have "good_segment x" using assms(2) by simp
  then have x: "x \<noteq> []" by (rule good_ne)
  show ?thesis
  proof (cases "xs = []")
    case True
    then show ?thesis unfolding b using x by (simp add: abs_path_def)
  next
    case False
    then show ?thesis unfolding b by (simp add: abs_path_def js_join_snoc)
  qed
qed

lemma rejected_outside:
  assumes "list_all good_segment bs"
    and "\<not> within_root (abs_path bs)
            (path_resolve wd (path_join (abs_path bs) (strip_dotdot (path_normalize filePath))))"
  shows "validateAndResolvePath wd (abs_path bs) filePath
           = Inl (McpError InvalidParams ''Access denied: Path traversal attempt detected'')"
proof -
  let ?u = "strip_dotdot (path_normalize filePath)"
  let ?r = "path_resolve wd (path_join (abs_path bs) ?u)"
  have bs: "\<forall>s\<in>set bs. good_segment s" using assms(1) by (simp add: list_all_iff)
  have u: "?u = ''..'' \<or> ''..'' \<notin> set (split_slash ?u)"
    using normalized_led by (rule strip_keeps)
  have base: "path_resolve wd (abs_path bs) = abs_path bs" using bs by (rule path_resolve_abs)
  have nb: "norm_segments False (abs_path bs) = bs" using bs by (rule norm_segments_abs)
  from resolve_join[OF bs u, of wd] have "?r = abs_path (butlast bs) \<and> bs \<noteq> []"
  proof
    assume "\<exists>gs. (\<forall>s\<in>set gs. good_segment s) \<and> ?r = abs_path (bs @ gs)"
    then obtain gs where gs: "\<forall>s\<in>set gs. good_segment s" and r: "?r = abs_path (bs @ gs)" by blast
    have "\<forall>s\<in>set (bs @ gs). good_segment s" using bs gs by auto
    then have "norm_segments False ?r = bs @ gs" unfolding r by (rule norm_segments_abs)
    then have "within_root (abs_path bs) ?r" unfolding within_root_def nb by simp
    with assms(2) show ?thesis by simp
  next
    assume r: "?r = abs_path (butlast bs)"
    have "bs \<noteq> []"
    proof
      assume "bs = []"
      then have "?r = abs_path bs" using r by simp
      then have "within_root (abs_path bs) ?r" unfolding within_root_def by simp
      with assms(2) show False by simp
    qed
    with r show ?thesis by simp
  qed
  then have r: "?r = abs_path (butlast bs)" and ne: "bs \<noteq> []" by simp_all
  have "\<not> prefix (abs_path bs) (abs_path (butlast bs))"
    using abs_path_butlast_shorter[OF ne bs] prefix_length_le by fastforce
  then have "\<not> startsWith ?r (path_resolve wd (abs_path bs))"
    unfolding r base startsWith_def .
  then show ?thesis by (simp add: validateAndResolvePath_def Let_def)
qed


section \<open>The bearer-token gate of the HTTP listener\<close>

lemma isAuthValid_carries:
  assumes "isAuthValid (Some tok) h" "tok \<noteq> []"
  shows "h = Some tok \<or> h = Some (''Bearer '' @ tok)"
proof -
  from assms obtain hd where h: "h = Some hd" "hd \<noteq> []"
    and t: "(if prefix ''Bearer '' hd then drop 7 hd else hd) = tok"
    by (auto simp: isAuthValid_def truthy_def startsWith_def Let_def split: option.splits if_splits)
  show ?thesis
  proof (cases "prefix ''Bearer '' hd")
    case True
    then obtain r where "hd = ''Bearer '' @ r" by (auto simp: prefix_def)
    with t True show ?thesis using h by auto
  next
    case False
    with t h show ?thesis by auto
  qed
qed

lemma gate_401:
  assumes "env_value = Some tok" "tok \<noteq> []" "delivered req"
    and "req_method req \<noteq> Some ''CONNECT''" "req_method req \<noteq> Some ''OPTIONS''"
    and "req_authorization req \<noteq> Some tok" "req_authorization req \<noteq> Some (''Bearer '' @ tok)"
  shows "handle_http delivered (authToken_of env_value) req
           = Respond 401 (''{'' @ [CHR 0x22] @ ''error'' @ [CHR 0x22] @ '':'' @ [CHR 0x22]
               @ ''Unauthorized: Invalid or missing authentication token'' @ [CHR 0x22] @ ''}'')"
proof -
  have a: "authToken_of env_value = Some tok" using assms(1,2) by (simp add: authToken_of_def truthy_def)
  have "\<not> isAuthValid (Some tok) (req_authorization req)"
    using isAuthValid_carries[OF _ assms(2)] assms(6,7) by blast
  then show ?thesis
    using a assms(2,3,4,5) by (simp add: handle_http_def truthy_def unauthorized_body_def json_field_def)
qed

lemma gate_options:
  "delivered req \<Longrightarrow> req_method req = Some ''OPTIONS'' \<Longrightarrow> handle_http delivered tokenopt req = Respond 200 []"
  by (simp add: handle_http_def)

lemma gate_undelivered:
  "req_method req = Some ''CONNECT'' \<or> \<not> delivered req \<Longrightarrow> handle_http delivered tokenopt req = NotDelivered"
  by (auto simp: handle_http_def)

lemma gate_pass:
  assumes "env_value = Some tok" "tok \<noteq> []" "delivered req"
    and "req_method req \<noteq> Some ''CONNECT''" "req_method req \<noteq> Some ''OPTIONS''"
    and "req_authorization req = Some (''Bearer '' @ tok)"
  shows "handle_http delivered (authToken_of env_value) req
           = (if req_url req = Some ''/health'' then
                Respond 200 (''{'' @ [CHR 0x22] @ ''status'' @ [CHR 0x22] @ '':'' @ [CHR 0x22] @ ''healthy''
                  @ [CHR 0x22] @ '','' @ [CHR 0x22] @ ''service'' @ [CHR 0x22] @ '':'' @ [CHR 0x22]
                  @ ''npm-package-mcp-server'' @ [CHR 0x22] @ '','' @ [CHR 0x22] @ ''version''
                  @ [CHR 0x22] @ '':'' @ [CHR 0x22] @ ''1.0.0'' @ [CHR 0x22] @ ''}'')
              else if (\<exists>u. req_url req = Some (''/mcp'' @ u)) then HandleRequest
              else Respond 404 ''Not Found'')"
proof -
  have a: "authToken_of env_value = Some tok" using assms(1,2) by (simp add: authToken_of_def truthy_def)
  have v: "isAuthValid (Some tok) (req_authorization req)"
    unfolding assms(6) using assms(2) by (simp add: isAuthValid_def truthy_def startsWith_def Let_def)
  have u: "(case req_url req of None \<Rightarrow> False | Some u \<Rightarrow> startsWith u ''/mcp'')
             = (\<exists>u. req_url req = Some (''/mcp'' @ u))"
    by (auto simp: startsWith_def prefix_def split: option.splits)
  show ?thesis
    unfolding handle_http_def a u using v assms(3,4,5)
    by (simp add: health_body_def json_field_def)
qed

text \<open>
  Claim C7, as the code has it. With \<^verbatim>\<open>AUTH_TOKEN\<close> set to a non-empty value, a request that
  the callback of the server gets, whose method is not \<^verbatim>\<open>OPTIONS\<close> and whose
  \<^verbatim>\<open>Authorization\<close> header is neither the token nor \<^verbatim>\<open>Bearer\<close>, a space and the token, is
  answered with status 401 and the error body, whatever its URL, and reaches no route. A
  request with the method \<^verbatim>\<open>OPTIONS\<close> is answered with status 200 and an empty body before
  the token is looked at. A \<^verbatim>\<open>CONNECT\<close> request, and any other request that Node does not
  hand to the callback, gets no answer from the callback at all, so nothing is promised
  for it. The last part shows that the check lets the token through: a request with
  \<^verbatim>\<open>Bearer\<close>, a space and the token reaches the routes.
\<close>

theorem handle_http_auth_gate:
  "(env_value = Some tok \<and> tok \<noteq> [] \<and> delivered req \<and>
    req_method req \<noteq> Some ''CONNECT'' \<and> req_method req \<noteq> Some ''OPTIONS'' \<and>
    req_authorization req \<noteq> Some tok \<and> req_authorization req \<noteq> Some (''Bearer '' @ tok)
      \<longrightarrow> handle_http delivered (authToken_of env_value) req
            = Respond 401 (''{'' @ [CHR 0x22] @ ''error'' @ [CHR 0x22] @ '':'' @ [CHR 0x22]
                @ ''Unauthorized: Invalid or missing authentication token'' @ [CHR 0x22] @ ''}'')) \<and>
   (delivered req \<and> req_method req = Some ''OPTIONS''
      \<longrightarrow> handle_http delivered (authToken_of env_value) req = Respond 200 []) \<and>
   (req_method req = Some ''CONNECT'' \<or> \<not> delivered req
      \<longrightarrow> handle_http delivered (authToken_of env_value) req = NotDelivered) \<and>
   (env_value = Some tok \<and> tok \<noteq> [] \<and> delivered req \<and>
    req_method req \<noteq> Some ''CONNECT'' \<and> req_method req \<noteq> Some ''OPTIONS'' \<and>
    req_authorization req = Some (''Bearer '' @ tok)
      \<longrightarrow> handle_http delivered (authToken_of env_value) req
            = (if req_url req = Some ''/health'' then
                Respond 200 (''{'' @ [CHR 0x22] @ ''status'' @ [CHR 0x22] @ '':'' @ [CHR 0x22] @ ''healthy''
                  @ [CHR 0x22] @ '','' @ [CHR 0x22] @ ''service'' @ [CHR 0x22] @ '':'' @ [CHR 0x22]
                  @ ''npm-package-mcp-server'' @ [CHR 0x22] @ '','' @ [CHR 0x22] @ ''version''
                  @ [CHR 0x22] @ '':'' @ [CHR 0x22] @ ''1.0.0'' @ [CHR 0x22] @ ''}'')
              else if (\<exists>u. req_url req = Some (''/mcp'' @ u)) then HandleRequest
              else Respond 404 ''Not Found''))"
proof (intro conjI impI)
  assume "env_value = Some tok \<and> tok \<noteq> [] \<and> delivered req \<and>
    req_method req \<noteq> Some ''CONNECT'' \<and> req_method req \<noteq> Some ''OPTIONS'' \<and>
    req_authorization req \<noteq> Some tok \<and> req_authorization req \<noteq> Some (''Bearer '' @ tok)"
  then show "handle_http delivered (authToken_of env_value) req
            = Respond 401 (''{'' @ [CHR 0x22] @ ''error'' @ [CHR 0x22] @ '':'' @ [CHR 0x22]
                @ ''Unauthorized: Invalid or missing authentication token'' @ [CHR 0x22] @ ''}'')"
    by (elim conjE) (rule gate_401)
next
  assume "delivered req \<and> req_method req = Some ''OPTIONS''"
  then show "handle_http delivered (authToken_of env_value) req = Respond 200 []"
    by (elim conjE) (rule gate_options)
next
  assume "req_method req = Some ''CONNECT'' \<or> \<not> delivered req"
  then show "handle_http delivered (authToken_of env_value) req = NotDelivered"
    by (rule gate_undelivered)
next
  assume "env_value = Some tok \<and> tok \<noteq> [] \<and> delivered req \<and>
    req_method req \<noteq> Some ''CONNECT'' \<and> req_method req \<noteq> Some ''OPTIONS'' \<and>
    req_authorization req = Some (''Bearer '' @ tok)"
  then show "handle_http delivered (authToken_of env_value) req
            = (if req_url req = Some ''/health'' then
                Respond 200 (''{'' @ [CHR 0x22] @ ''status'' @ [CHR 0x22] @ '':'' @ [CHR 0x22] @ ''healthy''
                  @ [CHR 0x22] @ '','' @ [CHR 0x22] @ ''service'' @ [CHR 0x22] @ '':'' @ [CHR 0x22]
                  @ ''npm-package-mcp-server'' @ [CHR 0x22] @ '','' @ [CHR 0x22] @ ''version''
                  @ [CHR 0x22] @ '':'' @ [CHR 0x22] @ ''1.0.0'' @ [CHR 0x22] @ ''}'')
              else if (\<exists>u. req_url req = Some (''/mcp'' @ u)) then HandleRequest
              else Respond 404 ''Not Found'')"
    by (elim conjE) (rule gate_pass)
qed

text \<open>
  The four cases on a server whose token is \<^verbatim>\<open>s3cret\<close>.
\<close>

theorem handle_http_auth_gate_witness:
  "handle_http (\<lambda>r. True) (authToken_of (Some ''s3cret''))
     \<lparr>req_method = Some ''GET'', req_url = Some ''/health'', req_authorization = Some ''Bearer wrong''\<rparr>
     = Respond 401 (''{'' @ [CHR 0x22] @ ''error'' @ [CHR 0x22] @ '':'' @ [CHR 0x22]
                @ ''Unauthorized: Invalid or missing authentication token'' @ [CHR 0x22] @ ''}'') \<and>
   handle_http (\<lambda>r. True) (authToken_of (Some ''s3cret''))
     \<lparr>req_method = Some ''OPTIONS'', req_url = Some ''/mcp'', req_authorization = None\<rparr>
     = Respond 200 [] \<and>
   handle_http (\<lambda>r. True) (authToken_of (Some ''s3cret''))
     \<lparr>req_method = Some ''CONNECT'', req_url = Some ''example.org:443'', req_authorization = None\<rparr>
     = NotDelivered \<and>
   handle_http (\<lambda>r. True) (authToken_of (Some ''s3cret''))
     \<lparr>req_method = Some ''POST'', req_url = Some ''/mcp'', req_authorization = Some ''Bearer s3cret''\<rparr>
     = HandleRequest"
proof -
  show ?thesis
  using handle_http_auth_gate[where env_value = "Some ''s3cret''" and tok = "''s3cret''"
          and delivered = "\<lambda>r. True"
          and req = "\<lparr>req_method = Some ''GET'', req_url = Some ''/health'', req_authorization = Some ''Bearer wrong''\<rparr>"]
        handle_http_auth_gate[where env_value = "Some ''s3cret''" and tok = "''s3cret''"
          and delivered = "\<lambda>r. True"
          and req = "\<lparr>req_method = Some ''OPTIONS'', req_url = Some ''/mcp'', req_authorization = None\<rparr>"]
        handle_http_auth_gate[where env_value = "Some ''s3cret''" and tok = "''s3cret''"
          and delivered = "\<lambda>r. True"
          and req = "\<lparr>req_method = Some ''CONNECT'', req_url = Some ''example.org:443'', req_authorization = None\<rparr>"]
        handle_http_auth_gate[where env_value = "Some ''s3cret''" and tok = "''s3cret''"
          and delivered = "\<lambda>r. True"
          and req = "\<lparr>req_method = Some ''POST'', req_url = Some ''/mcp'', req_authorization = Some ''Bearer s3cret''\<rparr>"]
  by simp
qed

text \<open>
  The claim as first stated fails: with the token set, an \<^verbatim>\<open>OPTIONS\<close> request without any
  \<^verbatim>\<open>Authorization\<close> header is answered with status 200, not 401.
\<close>

theorem handle_http_options_counterexample:
  "authToken_of (Some ''s3cret'') = Some ''s3cret'' \<and>
   req_authorization \<lparr>req_method = Some ''OPTIONS'', req_url = Some ''/mcp'', req_authorization = None\<rparr>
     = None \<and>
   handle_http (\<lambda>r. True) (authToken_of (Some ''s3cret''))
     \<lparr>req_method = Some ''OPTIONS'', req_url = Some ''/mcp'', req_authorization = None\<rparr>
     = Respond 200 [] \<and>
   handle_http (\<lambda>r. True) (authToken_of (Some ''s3cret''))
     \<lparr>req_method = Some ''OPTIONS'', req_url = Some ''/mcp'', req_authorization = None\<rparr>
     \<noteq> Respond 401 (''{'' @ [CHR 0x22] @ ''error'' @ [CHR 0x22] @ '':'' @ [CHR 0x22]
                @ ''Unauthorized: Invalid or missing authentication token'' @ [CHR 0x22] @ ''}'')"
  by (simp add: authToken_of_def truthy_def handle_http_def)

section \<open>The search tool\<close>

lemma dropWhile_all: "(\<forall>x\<in>set (dropWhile P q). P x) = (\<forall>x\<in>set q. P x)"
  by (induction q) auto

lemma js_trim_empty_iff: "(js_trim q = []) = list_all is_js_space q"
  by (simp add: js_trim_def dropWhile_eq_Nil_conv dropWhile_all list_all_iff)

lemma js_trim_shape:
  "\<exists>a b. q = a @ js_trim q @ b \<and> list_all is_js_space a \<and> list_all is_js_space b \<and>
         (js_trim q = [] \<or> (\<not> is_js_space (hd (js_trim q)) \<and> \<not> is_js_space (last (js_trim q))))"
proof -
  define d where "d = dropWhile is_js_space q"
  define a where "a = takeWhile is_js_space q"
  define b where "b = rev (takeWhile is_js_space (rev d))"
  have t: "js_trim q = rev (dropWhile is_js_space (rev d))" by (simp add: js_trim_def d_def)
  have q: "q = a @ d" by (simp add: a_def d_def)
  have "js_trim q @ b = rev (takeWhile is_js_space (rev d) @ dropWhile is_js_space (rev d))"
    unfolding t b_def by (simp only: rev_append)
  also have "\<dots> = rev (rev d)" by (simp only: takeWhile_dropWhile_id)
  also have "\<dots> = d" by simp
  finally have d: "d = js_trim q @ b" by (rule sym)
  have la: "list_all is_js_space a" by (simp add: a_def list_all_iff) (meson set_takeWhileD)
  have lb: "list_all is_js_space b" by (simp add: b_def list_all_iff) (meson set_takeWhileD)
  have ends: "js_trim q = [] \<or> (\<not> is_js_space (hd (js_trim q)) \<and> \<not> is_js_space (last (js_trim q)))"
  proof (cases "js_trim q = []")
    case True
    then show ?thesis by simp
  next
    case False
    then have ne: "dropWhile is_js_space (rev d) \<noteq> []" by (simp add: t)
    have "last (js_trim q) = hd (dropWhile is_js_space (rev d))"
      using ne by (simp add: t last_rev)
    then have l: "\<not> is_js_space (last (js_trim q))" using ne hd_dropWhile by metis
    have dne: "d \<noteq> []" using d False by auto
    have "hd (js_trim q) = hd d" using d False by (metis hd_append2)
    then have h: "\<not> is_js_space (hd (js_trim q))" using dne hd_dropWhile unfolding d_def by metis
    from l h show ?thesis by simp
  qed
  from q d la lb ends show ?thesis by (metis append_assoc)
qed

text \<open>
  Claim C9. When the query is missing, or is empty or made of white space only, the tool
  throws \<open>InvalidParams\<close> and sends nothing; otherwise, when the size (20 when none is given)
  exceeds 250, it throws \<open>InvalidParams\<close> and sends nothing; otherwise it sends exactly one
  search request, with the trimmed query, the size (20 when none is given) and the offset
  (0 when none is given), and what it throws then is never tagged \<open>InvalidParams\<close>: a
  failure of the request or of the formatting is thrown as \<open>InternalError\<close>. The trimmed
  query is the query without the white space at its two ends.
\<close>

theorem searchNpmPackages_contract:
  "(case sa_query args of
      None \<Rightarrow>
        searchNpmPackages service render args
          = ([], Inl (McpError InvalidParams ''query is required and must be a non-empty string''))
    | Some q \<Rightarrow>
        (\<exists>a b. q = a @ js_trim q @ b \<and> list_all is_js_space a \<and> list_all is_js_space b \<and>
           (js_trim q = [] \<or> (\<not> is_js_space (hd (js_trim q)) \<and> \<not> is_js_space (last (js_trim q))))) \<and>
        (if list_all is_js_space q then
           searchNpmPackages service render args
             = ([], Inl (McpError InvalidParams ''query is required and must be a non-empty string''))
         else if (case sa_size args of None \<Rightarrow> 20 | Some n \<Rightarrow> n) > 250 then
           searchNpmPackages service render args
             = ([], Inl (McpError InvalidParams ''size cannot exceed 250''))
         else
           searchNpmPackages service render args
             = ([SearchCall (js_trim q) (case sa_size args of None \<Rightarrow> 20 | Some n \<Rightarrow> n)
                   (case sa_from args of None \<Rightarrow> 0 | Some n \<Rightarrow> n)],
                (case service (js_trim q) (case sa_size args of None \<Rightarrow> 20 | Some n \<Rightarrow> n)
                        (case sa_from args of None \<Rightarrow> 0 | Some n \<Rightarrow> n) of
                   Inl msg \<Rightarrow> Inl (McpError InternalError (''Failed to search packages: '' @ msg))
                 | Inr found \<Rightarrow>
                     (case render q (case sa_from args of None \<Rightarrow> 0 | Some n \<Rightarrow> n) found of
                        Inl msg \<Rightarrow> Inl (McpError InternalError (''Failed to search packages: '' @ msg))
                      | Inr resultText \<Rightarrow> Inr resultText))) \<and>
           (\<forall>msg. snd (searchNpmPackages service render args) \<noteq> Inl (McpError InvalidParams msg))))"
proof (cases "sa_query args")
  case None
  then show ?thesis by (simp add: searchNpmPackages_def Let_def)
next
  case (Some q)
  have r: "if list_all is_js_space q then
           searchNpmPackages service render args
             = ([], Inl (McpError InvalidParams ''query is required and must be a non-empty string''))
         else if (case sa_size args of None \<Rightarrow> 20 | Some n \<Rightarrow> n) > 250 then
           searchNpmPackages service render args
             = ([], Inl (McpError InvalidParams ''size cannot exceed 250''))
         else
           searchNpmPackages service render args
             = ([SearchCall (js_trim q) (case sa_size args of None \<Rightarrow> 20 | Some n \<Rightarrow> n)
                   (case sa_from args of None \<Rightarrow> 0 | Some n \<Rightarrow> n)],
                (case service (js_trim q) (case sa_size args of None \<Rightarrow> 20 | Some n \<Rightarrow> n)
                        (case sa_from args of None \<Rightarrow> 0 | Some n \<Rightarrow> n) of
                   Inl msg \<Rightarrow> Inl (McpError InternalError (''Failed to search packages: '' @ msg))
                 | Inr found \<Rightarrow>
                     (case render q (case sa_from args of None \<Rightarrow> 0 | Some n \<Rightarrow> n) found of
                        Inl msg \<Rightarrow> Inl (McpError InternalError (''Failed to search packages: '' @ msg))
                      | Inr resultText \<Rightarrow> Inr resultText))) \<and>
           (\<forall>msg. snd (searchNpmPackages service render args) \<noteq> Inl (McpError InvalidParams msg))"
    using Some
    by (auto simp: searchNpmPackages_def Let_def truthy_def js_trim_empty_iff
             size_or_default_def from_or_default_def split: option.splits sum.splits)
  show ?thesis unfolding Some option.case using js_trim_shape[of q] r by (rule conjI)
qed

section \<open>The bundle of code files\<close>

lemma digit_value: "n < 10 \<Longrightarrow> (of_char (''0123456789'' ! n) :: nat) = 48 + n"
proof -
  have "\<forall>k\<in>set [0..<10]. (of_char (''0123456789'' ! k) :: nat) = 48 + k"
    by (simp add: upt_rec)
  moreover assume "n < 10"
  ultimately show ?thesis by simp
qed

lemma read_show: "read_decimal (show_nat n) = n"
proof (induction n rule: show_nat.induct)
  case (1 n)
  show ?case
  proof (cases "n < 10")
    case True
    then show ?thesis
      by (subst show_nat.simps) (simp add: read_decimal_def digit_value del: show_nat.simps)
  next
    case False
    have m: "n mod 10 < 10" by simp
    have "read_decimal (show_nat n) = 10 * read_decimal (show_nat (n div 10)) + n mod 10"
      using False
      by (subst show_nat.simps) (simp add: read_decimal_def digit_value[OF m] del: show_nat.simps)
    then show ?thesis using "1.IH"[OF False] by simp
  qed
qed

lemma concat_sections_ends:
  "fs \<noteq> [] \<Longrightarrow> \<exists>xs. concat (map (\<lambda>f. h f @ [NEWLINE, NEWLINE]) fs) = xs @ [NEWLINE, NEWLINE]"
proof (induction fs rule: rev_induct)
  case Nil
  then show ?case by simp
next
  case (snoc f fs)
  have "concat (map (\<lambda>f. h f @ [NEWLINE, NEWLINE]) (fs @ [f]))
      = (concat (map (\<lambda>f. h f @ [NEWLINE, NEWLINE]) fs) @ h f) @ [NEWLINE, NEWLINE]" by simp
  then show ?case by blast
qed

lemma not_suffix_dot_newline:
  assumes "t = xs @ [NEWLINE, NEWLINE]"
  shows "\<not> suffix (ys @ [CHR ''.'', NEWLINE]) t"
proof
  assume "suffix (ys @ [CHR ''.'', NEWLINE]) t"
  then obtain zs where "t = zs @ ys @ [CHR ''.'', NEWLINE]" by (auto simp: suffix_def)
  with assms have "(zs @ ys) @ [CHR ''.'', NEWLINE] = xs @ [NEWLINE, NEWLINE]" by simp
  then have "[CHR ''.'', NEWLINE] = [NEWLINE, NEWLINE]"
    by (rule append_eq_append_conv[THEN iffD1, THEN conjunct2, rotated]) simp
  then show False by (simp add: NEWLINE_def)
qed

lemma bundle_text_explicit:
  "bundle_text wd root info codeFiles
     = ''Package: '' @ pi_name info @ ''@'' @ pi_version info @ [NEWLINE]
       @ ''Description: ''
       @ (case pi_description info of
            None \<Rightarrow> ''No description''
          | Some d \<Rightarrow> if d = [] then ''No description'' else d) @ [NEWLINE]
       @ ''Code files found: '' @ show_nat (length codeFiles) @ [NEWLINE, NEWLINE]
       @ concat (map (\<lambda>f. (''=== '' @ path_relative wd root (cf_path f) @ '' ==='' @ [NEWLINE]
                            @ cf_content f) @ [NEWLINE, NEWLINE])
                   (take 20 codeFiles))
       @ (if 20 < length codeFiles
          then (''... and '' @ show_nat (length codeFiles - 20) @ '' more files'' @ [NEWLINE]
                @ ''Use '' @ [CHR 0x27] @ ''list_package_files'' @ [CHR 0x27]
                @ '' tool to see all files, then fetch specific files as needed'')
               @ [CHR ''.'', NEWLINE]
          else [])"
proof -
  have fs: "file_section wd root
      = (\<lambda>f. (''=== '' @ path_relative wd root (cf_path f) @ '' ==='' @ [NEWLINE] @ cf_content f)
              @ [NEWLINE, NEWLINE])"
    by (rule ext) (simp add: file_section_def)
  show ?thesis
    unfolding bundle_text_def Let_def MAX_CODE_FILES_def fs
    by (simp add: bundle_header_def more_files_notice_def or_default_def truthy_def
          del: show_nat.simps split: option.splits)
qed

lemma small_bundle_ends:
  assumes "\<not> 20 < length codeFiles"
  shows "\<exists>xs. bundle_text wd root info codeFiles = xs @ [NEWLINE, NEWLINE]"
proof (cases "codeFiles = []")
  case True
  show ?thesis unfolding bundle_text_explicit using True
    by (simp del: show_nat.simps)
next
  case False
  then have "take 20 codeFiles \<noteq> []" by simp
  from concat_sections_ends[OF this, where h = "\<lambda>f. ''=== '' @ path_relative wd root (cf_path f) @ '' ==='' @ [NEWLINE] @ cf_content f"]
  obtain xs where x: "concat (map (\<lambda>f. (''=== '' @ path_relative wd root (cf_path f) @ '' ==='' @ [NEWLINE]
                            @ cf_content f) @ [NEWLINE, NEWLINE])
                   (take 20 codeFiles)) = xs @ [NEWLINE, NEWLINE]"
    by blast
  show ?thesis unfolding bundle_text_explicit x using assms
    by (simp del: show_nat.simps)
qed

text \<open>
  Claim C5. The bundle is the header, then one section for each of the first 20 discovered
  files (so for at most 20 files, and for all of them when there are 20 or fewer), and,
  when more than 20 files were discovered, it ends with the notice, which carries the count
  of the files left out, the total minus 20, in decimal digits that read back as that
  number. When 20 files or fewer were discovered the bundle does not end with the notice,
  whatever count the notice would carry. \<^verbatim>\<open>getAllCodeFiles\<close> returns this bundle for the files
  that the walk discovers.
\<close>

theorem bundle_text_limit:
  "bundle_text wd root info codeFiles
     = ''Package: '' @ pi_name info @ ''@'' @ pi_version info @ [NEWLINE]
       @ ''Description: ''
       @ (case pi_description info of
            None \<Rightarrow> ''No description''
          | Some d \<Rightarrow> if d = [] then ''No description'' else d) @ [NEWLINE]
       @ ''Code files found: '' @ show_nat (length codeFiles) @ [NEWLINE, NEWLINE]
       @ concat (map (\<lambda>f. (''=== '' @ path_relative wd root (cf_path f) @ '' ==='' @ [NEWLINE]
                            @ cf_content f) @ [NEWLINE, NEWLINE])
                   (take 20 codeFiles))
       @ (if 20 < length codeFiles
          then (''... and '' @ show_nat (length codeFiles - 20) @ '' more files'' @ [NEWLINE]
                @ ''Use '' @ [CHR 0x27] @ ''list_package_files'' @ [CHR 0x27]
                @ '' tool to see all files, then fetch specific files as needed'')
               @ [CHR ''.'', NEWLINE]
          else []) \<and>
   length (take 20 codeFiles) = min 20 (length codeFiles) \<and>
   (\<forall>n. read_decimal (show_nat n) = n) \<and>
   (if 20 < length codeFiles
    then suffix ((''... and '' @ show_nat (length codeFiles - 20) @ '' more files'' @ [NEWLINE]
                  @ ''Use '' @ [CHR 0x27] @ ''list_package_files'' @ [CHR 0x27]
                  @ '' tool to see all files, then fetch specific files as needed'')
                 @ [CHR ''.'', NEWLINE])
           (bundle_text wd root info codeFiles)
    else (\<forall>k. \<not> suffix ((''... and '' @ show_nat k @ '' more files'' @ [NEWLINE]
                         @ ''Use '' @ [CHR 0x27] @ ''list_package_files'' @ [CHR 0x27]
                         @ '' tool to see all files, then fetch specific files as needed'')
                        @ [CHR ''.'', NEWLINE])
                  (bundle_text wd root info codeFiles))) \<and>
   getAllCodeFiles wd fs root info = bundle_text wd root info (findCodeFiles fs root)"
proof (intro conjI)
  show "bundle_text wd root info codeFiles
     = ''Package: '' @ pi_name info @ ''@'' @ pi_version info @ [NEWLINE]
       @ ''Description: ''
       @ (case pi_description info of
            None \<Rightarrow> ''No description''
          | Some d \<Rightarrow> if d = [] then ''No description'' else d) @ [NEWLINE]
       @ ''Code files found: '' @ show_nat (length codeFiles) @ [NEWLINE, NEWLINE]
       @ concat (map (\<lambda>f. (''=== '' @ path_relative wd root (cf_path f) @ '' ==='' @ [NEWLINE]
                            @ cf_content f) @ [NEWLINE, NEWLINE])
                   (take 20 codeFiles))
       @ (if 20 < length codeFiles
          then (''... and '' @ show_nat (length codeFiles - 20) @ '' more files'' @ [NEWLINE]
                @ ''Use '' @ [CHR 0x27] @ ''list_package_files'' @ [CHR 0x27]
                @ '' tool to see all files, then fetch specific files as needed'')
               @ [CHR ''.'', NEWLINE]
          else [])"
    by (rule bundle_text_explicit)
  show "length (take 20 codeFiles) = min 20 (length codeFiles)" by simp
  show "\<forall>n. read_decimal (show_nat n) = n"
    using read_show by (rule allI)
  show "getAllCodeFiles wd fs root info = bundle_text wd root info (findCodeFiles fs root)"
    by (simp add: getAllCodeFiles_def)
  show "if 20 < length codeFiles
    then suffix ((''... and '' @ show_nat (length codeFiles - 20) @ '' more files'' @ [NEWLINE]
                  @ ''Use '' @ [CHR 0x27] @ ''list_package_files'' @ [CHR 0x27]
                  @ '' tool to see all files, then fetch specific files as needed'')
                 @ [CHR ''.'', NEWLINE])
           (bundle_text wd root info codeFiles)
    else (\<forall>k. \<not> suffix ((''... and '' @ show_nat k @ '' more files'' @ [NEWLINE]
                         @ ''Use '' @ [CHR 0x27] @ ''list_package_files'' @ [CHR 0x27]
                         @ '' tool to see all files, then fetch specific files as needed'')
                        @ [CHR ''.'', NEWLINE])
                  (bundle_text wd root info codeFiles))"
  proof (cases "20 < length codeFiles")
    case True
    let ?N = "(''... and '' @ show_nat (length codeFiles - 20) @ '' more files'' @ [NEWLINE]
                  @ ''Use '' @ [CHR 0x27] @ ''list_package_files'' @ [CHR 0x27]
                  @ '' tool to see all files, then fetch specific files as needed'')
                 @ [CHR ''.'', NEWLINE]"
    let ?A = "''Package: '' @ pi_name info @ ''@'' @ pi_version info @ [NEWLINE]
       @ ''Description: ''
       @ (case pi_description info of
            None \<Rightarrow> ''No description''
          | Some d \<Rightarrow> if d = [] then ''No description'' else d) @ [NEWLINE]
       @ ''Code files found: '' @ show_nat (length codeFiles) @ [NEWLINE, NEWLINE]
       @ concat (map (\<lambda>f. (''=== '' @ path_relative wd root (cf_path f) @ '' ==='' @ [NEWLINE]
                            @ cf_content f) @ [NEWLINE, NEWLINE])
                   (take 20 codeFiles))"
    have "bundle_text wd root info codeFiles = ?A @ ?N"
      unfolding bundle_text_explicit using True by (simp del: show_nat.simps)
    then have sf: "suffix ?N (bundle_text wd root info codeFiles)" by (rule suffixI)
    show ?thesis unfolding if_P[OF True] by (rule sf)
  next
    case False
    obtain xs where x: "bundle_text wd root info codeFiles = xs @ [NEWLINE, NEWLINE]"
      using small_bundle_ends[OF False] by blast
    have nf: "\<forall>k. \<not> suffix ((''... and '' @ show_nat k @ '' more files'' @ [NEWLINE]
                         @ ''Use '' @ [CHR 0x27] @ ''list_package_files'' @ [CHR 0x27]
                         @ '' tool to see all files, then fetch specific files as needed'')
                        @ [CHR ''.'', NEWLINE])
                  (bundle_text wd root info codeFiles)"
      using not_suffix_dot_newline[OF x] by (rule allI)
    show ?thesis unfolding if_not_P[OF False] by (rule nf)
  qed
qed

section \<open>The cache of the popular-packages resource\<close>

lemma heading_nonempty: "truthy (popular_heading @ rest)"
  by (simp add: truthy_def popular_heading_def)

lemma fetch_truthy: "fetch_popular service entries isoNow = (calls, Inr summary) \<Longrightarrow> truthy summary"
  using heading_nonempty
  by (auto simp: fetch_popular_def Let_def split: prod.splits sum.splits)

lemma fresh_lookup:
  assumes "popularPackagesCache st = Some c" "truthy c" "now - popularPackagesCacheTime st < CACHE_DURATION"
  shows "cache_lookup now st = Some c"
  using assms by (simp add: cache_lookup_def)

lemma lookup_None:
  "cache_lookup now st = None \<Longrightarrow>
     popularPackagesCache st = None \<or> popularPackagesCache st = Some [] \<or>
     now - popularPackagesCacheTime st \<ge> CACHE_DURATION"
  by (auto simp: cache_lookup_def truthy_def split: option.splits if_splits)

lemma read_alone_miss:
  assumes "cache_lookup now st = None"
  shows "run_reads service entries stamp [Begin now, Complete 0] (st, [])
           = ([fetch_popular (service now) entries (stamp now)],
              (store_popular now (snd (fetch_popular (service now) entries (stamp now))) st, []))"
  using assms by (simp split: prod.splits)

lemma read_alone_hit:
  assumes "cache_lookup now st = Some c"
  shows "run_reads service entries stamp [Begin now, Complete 0] (st, []) = ([([], Inr c)], (st, []))"
  using assms by simp

lemma hits_while_fresh:
  assumes "popularPackagesCache st = Some c" "truthy c"
    and "\<forall>t'\<in>set (begins evs). t' - popularPackagesCacheTime st < CACHE_DURATION"
  shows "run_reads service entries stamp evs (st, []) = (map (\<lambda>t'. ([], Inr c)) (begins evs), (st, []))"
  using assms(3)
proof (induction evs)
  case Nil
  then show ?case by simp
next
  case (Cons e evs)
  show ?case
  proof (cases e)
    case (Begin t')
    with Cons.prems have "cache_lookup t' st = Some c"
      using assms(1,2) by (simp add: fresh_lookup)
    moreover have "run_reads service entries stamp evs (st, [])
        = (map (\<lambda>t'. ([], Inr c)) (begins evs), (st, []))"
      using Cons Begin by simp
    ultimately show ?thesis using Begin by simp
  next
    case (Complete k)
    then show ?thesis using Cons by simp
  qed
qed

lemma ttl_part1:
  assumes "cache_lookup t st0 = None"
    and "run_reads service entries stamp [Begin t, Complete 0] (st0, []) = ([(calls, Inr summary)], (st1, inflight))"
    and "\<forall>t'\<in>set (begins evs). t' - t < CACHE_DURATION"
  shows "inflight = [] \<and> popularPackagesCache st1 = Some summary \<and> popularPackagesCacheTime st1 = t \<and>
         run_reads service' entries' stamp' evs (st1, [])
           = (map (\<lambda>t'. ([], Inr summary)) (begins evs), (st1, []))"
proof -
  from assms(2) have f: "fetch_popular (service t) entries (stamp t) = (calls, Inr summary)"
    and s: "st1 = store_popular t (Inr summary) st0" and i: "inflight = []"
    unfolding read_alone_miss[OF assms(1)] by auto
  have c: "popularPackagesCache st1 = Some summary" and tm: "popularPackagesCacheTime st1 = t"
    unfolding s by (simp_all add: store_popular_def)
  have "truthy summary" using f by (rule fetch_truthy)
  with c have "run_reads service' entries' stamp' evs (st1, [])
           = (map (\<lambda>t'. ([], Inr summary)) (begins evs), (st1, []))"
    using assms(3) unfolding tm[symmetric] by (rule hits_while_fresh)
  with i c tm show ?thesis by simp
qed

lemma ttl_part2:
  assumes "run_reads service entries stamp [Begin now, Complete 0] (st, []) = (outs, (st', inflight))"
    and "st' \<noteq> st"
  shows "(popularPackagesCache st = None \<or> popularPackagesCache st = Some [] \<or>
          now - popularPackagesCacheTime st \<ge> CACHE_DURATION) \<and>
         (\<exists>calls cached. outs = [(calls, Inr cached)] \<and>
            st' = \<lparr>popularPackagesCache = Some cached, popularPackagesCacheTime = now\<rparr>)"
proof (cases "cache_lookup now st")
  case (Some c)
  with assms show ?thesis unfolding read_alone_hit[OF Some] by simp
next
  case None
  obtain calls result where f: "fetch_popular (service now) entries (stamp now) = (calls, result)"
    by (cases "fetch_popular (service now) entries (stamp now)") auto
  from assms(1) have o: "outs = [(calls, result)]" and s: "st' = store_popular now result st"
    unfolding read_alone_miss[OF None] f by auto
  from s assms(2) obtain cached where r: "result = Inr cached"
    by (cases result) (auto simp: store_popular_def)
  have "st\<lparr>popularPackagesCache := Some cached, popularPackagesCacheTime := now\<rparr>
      = \<lparr>popularPackagesCache = Some cached, popularPackagesCacheTime = now\<rparr>"
    by (cases st) simp
  then have "st' = \<lparr>popularPackagesCache = Some cached, popularPackagesCacheTime = now\<rparr>"
    using s r by (simp add: store_popular_def)
  with o r lookup_None[OF None] show ?thesis by simp
qed

lemma miss_lookup:
  assumes "popularPackagesCache st = None \<or> popularPackagesCache st = Some [] \<or>
           now - popularPackagesCacheTime st \<ge> CACHE_DURATION"
  shows "cache_lookup now st = None"
  using assms by (auto simp: cache_lookup_def truthy_def split: option.splits)

lemma collect_calls:
  "fst (collect_popular service acc qs) = map (\<lambda>q. SearchCall q 10 0) qs"
  by (induction qs arbitrary: acc) (simp_all add: Let_def case_prod_beta)

lemma fetch_calls:
  "fst (fetch_popular service entries isoNow)
     = [SearchCall ''react'' 10 0, SearchCall ''lodash'' 10 0, SearchCall ''express'' 10 0,
        SearchCall ''typescript'' 10 0, SearchCall ''webpack'' 10 0]"
proof -
  have "fst (fetch_popular service entries isoNow)
          = fst (collect_popular service ([], []) popularQueries)"
    by (simp add: fetch_popular_def Let_def split: prod.splits sum.splits)
  then show ?thesis unfolding collect_calls by (simp add: popularQueries_def)
qed

lemma store_explicit:
  "store_popular now result st
     = (case result of Inl e \<Rightarrow> st
        | Inr cached \<Rightarrow> \<lparr>popularPackagesCache = Some cached, popularPackagesCacheTime = now\<rparr>)"
  by (cases st) (simp add: store_popular_def split: sum.splits)

lemma ttl_part3:
  assumes "popularPackagesCache st = None \<or> popularPackagesCache st = Some [] \<or>
           now - popularPackagesCacheTime st \<ge> CACHE_DURATION"
  shows "run_reads service entries stamp [Begin now, Complete 0] (st, [])
           = ([fetch_popular (service now) entries (stamp now)],
              (case snd (fetch_popular (service now) entries (stamp now)) of
                 Inl e \<Rightarrow> st
               | Inr cached \<Rightarrow> \<lparr>popularPackagesCache = Some cached, popularPackagesCacheTime = now\<rparr>),
              []) \<and>
         fst (fetch_popular (service now) entries (stamp now))
           = [SearchCall ''react'' 10 0, SearchCall ''lodash'' 10 0, SearchCall ''express'' 10 0,
              SearchCall ''typescript'' 10 0, SearchCall ''webpack'' 10 0]"
  unfolding read_alone_miss[OF miss_lookup[OF assms]] store_explicit
  using fetch_calls[of "service now" entries "stamp now"] by simp

text \<open>
  Claim C4, as the code has it. The resource has no guard against reads that overlap, so
  the claim is stated for a read that runs alone: it begins when no fetch is in flight, and
  its fetch ends before the next read begins.

  First part: when the cache is absent, empty or at least 24 hours old at the time \<open>t\<close>, and
  the read at \<open>t\<close> runs alone and fetches with success, then the summary and \<open>t\<close> are stored,
  and all reads that begin less than 24 hours after \<open>t\<close> return the stored summary, send no
  request to the registry, and leave the stored summary and its time as they are.

  Second part: a read that runs alone and changes the state found the cache absent, empty
  or at least 24 hours old, and it replaced both fields.

  Third part: a read that runs alone and finds the cache absent, empty or at least 24 hours
  old does fetch (five search requests), and stores the result when the fetch succeeds.
\<close>

theorem popular_cache_ttl:
  "((popularPackagesCache st0 = None \<or> popularPackagesCache st0 = Some [] \<or>
     t - popularPackagesCacheTime st0 \<ge> 24 * 60 * 60 * 1000) \<and>
    run_reads service entries stamp [Begin t, Complete 0] (st0, [])
      = ([(calls, Inr summary)], (st1, inflight)) \<and>
    (\<forall>t'\<in>set (begins evs). t' - t < 24 * 60 * 60 * 1000)
    \<longrightarrow> inflight = [] \<and> popularPackagesCache st1 = Some summary \<and> popularPackagesCacheTime st1 = t \<and>
        run_reads service' entries' stamp' evs (st1, [])
          = (map (\<lambda>t'. ([], Inr summary)) (begins evs), (st1, []))) \<and>
   (run_reads service entries stamp [Begin now, Complete 0] (st, []) = (outs, (st', inflight')) \<and>
    st' \<noteq> st
    \<longrightarrow> (popularPackagesCache st = None \<or> popularPackagesCache st = Some [] \<or>
         now - popularPackagesCacheTime st \<ge> 24 * 60 * 60 * 1000) \<and>
        (\<exists>calls cached. outs = [(calls, Inr cached)] \<and>
           st' = \<lparr>popularPackagesCache = Some cached, popularPackagesCacheTime = now\<rparr>)) \<and>
   (popularPackagesCache st = None \<or> popularPackagesCache st = Some [] \<or>
    now - popularPackagesCacheTime st \<ge> 24 * 60 * 60 * 1000
    \<longrightarrow> run_reads service entries stamp [Begin now, Complete 0] (st, [])
           = ([fetch_popular (service now) entries (stamp now)],
              (case snd (fetch_popular (service now) entries (stamp now)) of
                 Inl e \<Rightarrow> st
               | Inr cached \<Rightarrow> \<lparr>popularPackagesCache = Some cached, popularPackagesCacheTime = now\<rparr>),
              []) \<and>
        fst (fetch_popular (service now) entries (stamp now))
           = [SearchCall ''react'' 10 0, SearchCall ''lodash'' 10 0, SearchCall ''express'' 10 0,
              SearchCall ''typescript'' 10 0, SearchCall ''webpack'' 10 0])"
proof -
  have p1: "(popularPackagesCache st0 = None \<or> popularPackagesCache st0 = Some [] \<or>
     t - popularPackagesCacheTime st0 \<ge> CACHE_DURATION) \<and>
    run_reads service entries stamp [Begin t, Complete 0] (st0, [])
      = ([(calls, Inr summary)], (st1, inflight)) \<and>
    (\<forall>t'\<in>set (begins evs). t' - t < CACHE_DURATION)
    \<longrightarrow> inflight = [] \<and> popularPackagesCache st1 = Some summary \<and> popularPackagesCacheTime st1 = t \<and>
        run_reads service' entries' stamp' evs (st1, [])
          = (map (\<lambda>t'. ([], Inr summary)) (begins evs), (st1, []))"
  proof (rule impI)
    assume a: "(popularPackagesCache st0 = None \<or> popularPackagesCache st0 = Some [] \<or>
       t - popularPackagesCacheTime st0 \<ge> CACHE_DURATION) \<and>
      run_reads service entries stamp [Begin t, Complete 0] (st0, [])
        = ([(calls, Inr summary)], (st1, inflight)) \<and>
      (\<forall>t'\<in>set (begins evs). t' - t < CACHE_DURATION)"
    show "inflight = [] \<and> popularPackagesCache st1 = Some summary \<and> popularPackagesCacheTime st1 = t \<and>
        run_reads service' entries' stamp' evs (st1, [])
          = (map (\<lambda>t'. ([], Inr summary)) (begins evs), (st1, []))"
      by (rule ttl_part1[OF miss_lookup[OF a[THEN conjunct1]] a[THEN conjunct2, THEN conjunct1]
                a[THEN conjunct2, THEN conjunct2]])
  qed
  have p2: "run_reads service entries stamp [Begin now, Complete 0] (st, []) = (outs, (st', inflight')) \<and>
    st' \<noteq> st
    \<longrightarrow> (popularPackagesCache st = None \<or> popularPackagesCache st = Some [] \<or>
         now - popularPackagesCacheTime st \<ge> CACHE_DURATION) \<and>
        (\<exists>calls cached. outs = [(calls, Inr cached)] \<and>
           st' = \<lparr>popularPackagesCache = Some cached, popularPackagesCacheTime = now\<rparr>)"
    using ttl_part2[of service entries stamp now st outs st' inflight'] by blast
  have p3: "popularPackagesCache st = None \<or> popularPackagesCache st = Some [] \<or>
    now - popularPackagesCacheTime st \<ge> CACHE_DURATION
    \<longrightarrow> run_reads service entries stamp [Begin now, Complete 0] (st, [])
           = ([fetch_popular (service now) entries (stamp now)],
              (case snd (fetch_popular (service now) entries (stamp now)) of
                 Inl e \<Rightarrow> st
               | Inr cached \<Rightarrow> \<lparr>popularPackagesCache = Some cached, popularPackagesCacheTime = now\<rparr>),
              []) \<and>
        fst (fetch_popular (service now) entries (stamp now))
           = [SearchCall ''react'' 10 0, SearchCall ''lodash'' 10 0, SearchCall ''express'' 10 0,
              SearchCall ''typescript'' 10 0, SearchCall ''webpack'' 10 0]"
    using ttl_part3[of st now service entries stamp] by (rule impI)
  from p1 p2 p3 show ?thesis unfolding CACHE_DURATION_def by (intro conjI)
qed

lemma offline_fetch:
  "fetch_popular (offline now) no_entries isoNow
     = ([SearchCall ''react'' 10 0, SearchCall ''lodash'' 10 0, SearchCall ''express'' 10 0,
         SearchCall ''typescript'' 10 0, SearchCall ''webpack'' 10 0],
        Inr (popular_heading @ ''Updated: '' @ isoNow @ [NEWLINE, NEWLINE] @ ''none''))"
  by (simp add: fetch_popular_def popularQueries_def offline_def no_entries_def)

lemma initial_miss: "cache_lookup now initial_state = None"
  by (simp add: cache_lookup_def initial_state_def)

text \<open>
  A first read at time 1000 on a server that has just started, and two later reads within
  the 24 hours, the second one millisecond before they end.
\<close>

theorem popular_cache_ttl_witness:
  "popularPackagesCache initial_state = None \<and>
   (\<exists>calls summary st1.
      run_reads offline no_entries clock [Begin 1000, Complete 0] (initial_state, [])
        = ([(calls, Inr summary)], (st1, [])) \<and>
      st1 \<noteq> initial_state \<and>
      popularPackagesCache st1 = Some summary \<and> popularPackagesCacheTime st1 = 1000 \<and>
      run_reads offline no_entries clock [Begin 2000, Complete 0, Begin 86400999] (st1, [])
        = ([([], Inr summary), ([], Inr summary)], (st1, [])))"
proof -
  let ?calls = "[SearchCall ''react'' 10 0, SearchCall ''lodash'' 10 0, SearchCall ''express'' 10 0,
         SearchCall ''typescript'' 10 0, SearchCall ''webpack'' 10 0]"
  let ?summary = "popular_heading @ ''Updated: '' @ clock 1000 @ [NEWLINE, NEWLINE] @ ''none''"
  let ?st1 = "store_popular 1000 (Inr ?summary) initial_state"
  have r: "run_reads offline no_entries clock [Begin 1000, Complete 0] (initial_state, [])
        = ([(?calls, Inr ?summary)], (?st1, []))"
    unfolding read_alone_miss[OF initial_miss] offline_fetch by simp
  have w: "\<forall>t'\<in>set (begins [Begin 2000, Complete 0, Begin 86400999]). t' - 1000 < 24 * 60 * 60 * 1000"
    by simp
  have m: "popularPackagesCache initial_state = None \<or> popularPackagesCache initial_state = Some [] \<or>
     1000 - popularPackagesCacheTime initial_state \<ge> 24 * 60 * 60 * 1000"
    by (simp add: initial_state_def)
  have "inflight = [] \<and> popularPackagesCache ?st1 = Some ?summary \<and> popularPackagesCacheTime ?st1 = 1000 \<and>
        run_reads offline no_entries clock [Begin 2000, Complete 0, Begin 86400999] (?st1, [])
          = (map (\<lambda>t'. ([], Inr ?summary)) (begins [Begin 2000, Complete 0, Begin 86400999]), (?st1, []))"
    if "inflight = []" for inflight :: "int list"
    using popular_cache_ttl[where t = 1000 and ?st0.0 = initial_state and service = offline
      and entries = no_entries and stamp = clock and calls = ?calls and summary = ?summary
      and ?st1.0 = ?st1 and inflight = "[]" and evs = "[Begin 2000, Complete 0, Begin 86400999]"
      and service' = offline and entries' = no_entries and stamp' = clock,
      THEN conjunct1, THEN mp, OF conjI[OF m conjI[OF r w]]] that
    by (simp only:)
  from this[OF refl]
  have "popularPackagesCache ?st1 = Some ?summary \<and> popularPackagesCacheTime ?st1 = 1000 \<and>
        run_reads offline no_entries clock [Begin 2000, Complete 0, Begin 86400999] (?st1, [])
          = (map (\<lambda>t'. ([], Inr ?summary)) (begins [Begin 2000, Complete 0, Begin 86400999]), (?st1, []))"
    by (rule conjunct2)
  moreover have "?st1 \<noteq> initial_state" by (simp add: store_popular_def initial_state_def)
  moreover have "popularPackagesCache initial_state = None" by (simp add: initial_state_def)
  ultimately show ?thesis using r by (intro conjI exI[of _ ?calls] exI[of _ ?summary] exI[of _ ?st1]) simp_all
qed

text \<open>
  The claim as first stated fails when reads overlap. A read begins at time 1000, and a
  second one at time 1500, before the fetch of the first has ended. The first stores its
  summary with the time 1000. The second, though it began less than 24 hours after 1000,
  has sent its own requests to the registry, and it replaces the stored summary and its
  time, before any expiry.
\<close>

theorem popular_cache_overlap_counterexample:
  "(\<exists>calls summary.
      run_reads offline no_entries clock [Begin 1000, Begin 1500, Complete 0] (initial_state, [])
        = ([(calls, Inr summary)],
           (\<lparr>popularPackagesCache = Some summary, popularPackagesCacheTime = 1000\<rparr>, [1500]))) \<and>
   (1500 :: int) - 1000 < 24 * 60 * 60 * 1000 \<and>
   (\<exists>calls summary calls' summary'.
      run_reads offline no_entries clock [Begin 1000, Begin 1500, Complete 0, Complete 0] (initial_state, [])
        = ([(calls, Inr summary), (calls', Inr summary')],
           (\<lparr>popularPackagesCache = Some summary', popularPackagesCacheTime = 1500\<rparr>, [])) \<and>
      calls' \<noteq> [] \<and> summary' \<noteq> summary)"
proof -
  have c: "clock 1000 = ''1000''" "clock 1500 = ''1500''" by (simp_all add: clock_def)
  have a: "run_reads offline no_entries clock [Begin 1000, Begin 1500, Complete 0] (initial_state, [])
      = ([fetch_popular (offline 1000) no_entries (clock 1000)],
         (store_popular 1000 (snd (fetch_popular (offline 1000) no_entries (clock 1000))) initial_state, [1500]))"
    by (simp add: initial_miss split: prod.splits)
  have b: "run_reads offline no_entries clock [Begin 1000, Begin 1500, Complete 0, Complete 0] (initial_state, [])
      = ([fetch_popular (offline 1000) no_entries (clock 1000), fetch_popular (offline 1500) no_entries (clock 1500)],
         (store_popular 1500 (snd (fetch_popular (offline 1500) no_entries (clock 1500)))
            (store_popular 1000 (snd (fetch_popular (offline 1000) no_entries (clock 1000))) initial_state), []))"
    by (simp add: initial_miss split: prod.splits)
  show ?thesis
    unfolding a b offline_fetch c
    by (simp add: store_popular_def initial_state_def)
qed

section \<open>The example installation\<close>

lemma example_root_good: "list_all good_segment [''app'', ''temp'', ''pkg'']"
  by (simp add: good_segment_def)

lemma example_root_path: "abs_path [''app'', ''temp'', ''pkg''] = ''/app/temp/pkg''"
  by (simp add: abs_path_def)

lemma example_tree_wf: "wf_tree example_tree"
  by (simp add: example_tree_def good_segment_def)

lemma example_node: "node_at example_fs (abs_path [''app'', ''temp'', ''pkg'']) = Some example_tree"
proof -
  have "\<forall>s\<in>set [''app'', ''temp'', ''pkg'']. good_segment s" by (simp add: good_segment_def)
  then have "norm_segments False (abs_path [''app'', ''temp'', ''pkg'']) = [''app'', ''temp'', ''pkg'']"
    by (rule norm_segments_abs)
  then show ?thesis by (simp add: node_at_def example_fs_def)
qed

lemma example_entries:
  "entries_under example_tree
     = [([''lib''], Dir [(''b.js'', File ''B'')]),
        ([''lib'', ''b.js''], File ''B''),
        ([''a.js''], File ''A''),
        ([''README.md''], File ''R''),
        ([''.github''], Dir [(''ci.yml'', File ''C'')]),
        ([''.github'', ''ci.yml''], File ''C''),
        ([''node_modules''], Dir [(''dep.js'', File ''D'')]),
        ([''node_modules'', ''dep.js''], File ''D''),
        ([''locked.ts''], Unreadable ''EACCES'')]"
  by (simp add: example_tree_def)

lemma example_validate: "validatePackageName ''pkg'' = Inr ()"
  by (simp add: validatePackageName_def match_package_pattern_def match_name_def name_first_def
        name_rest_def is_alnum_def upt_rec NUL_def NEWLINE_def)

lemma example_temp: "tempDir example_world = abs_path [''app'', ''temp'']"
  by (simp add: example_world_def abs_path_def)

lemma example_extract:
  "extractPath_of (tempDir example_world) ''pkg'' = abs_path [''app'', ''temp'', ''pkg'']"
proof -
  have g: "list_all good_segment [''app'', ''temp'']" by (simp add: good_segment_def)
  have s: "sanitizeName ''pkg'' = ''pkg''" by (simp add: sanitizeName_def)
  show ?thesis unfolding example_temp extractPath_abs[OF example_validate g] s by simp
qed

lemma example_info:
  "fetchPackageInfo example_world ''pkg'' None
     = Inr \<lparr>pi_name = ''pkg'', pi_version = ''1.0.0'',
            pi_dist = Some \<lparr>tarball = ''https://registry.example/pkg.tgz'', shasum = ''0''\<rparr>,
            pi_description = None\<rparr>"
  by (simp add: fetchPackageInfo_def example_world_def truthy_def)

lemma example_download:
  "downloadAndExtract example_world ''https://registry.example/pkg.tgz'' ''pkg''
     = Inr (abs_path [''app'', ''temp'', ''pkg''], example_fs)"
  unfolding downloadAndExtract_def example_extract Let_def
  by (simp add: example_world_def)

lemma dotdot_parent:
  assumes bs: "\<forall>s\<in>set bs. good_segment s"
  shows "path_resolve wd (path_join (abs_path bs) ''..'') = abs_path (butlast bs)"
proof -
  have u: "''..'' = ''..'' \<or> ''..'' \<notin> set (split_slash ''..'')" by simp
  define joined where "joined = abs_path bs @ ''/'' @ ''..''"
  have j: "joined \<noteq> []" "hd joined = CHR ''/''" by (simp_all add: joined_def)
  have pj: "path_join (abs_path bs) ''..'' = path_normalize joined"
    using j by (simp add: path_join_def Let_def joined_def)
  note na = normalized_absolute[OF j]
  have res: "path_resolve wd (path_join (abs_path bs) ''..'') = abs_path (norm_segments False joined)"
    unfolding pj using path_resolve_absolute[of "path_normalize joined" wd] na by simp
  have seg: "norm_segments False joined = rev (foldl (norm_step False) (rev bs) (split_slash ''..''))"
    using norm_segments_append[of False "abs_path bs" "''..''"] fold_abs[OF bs, of False]
    by (simp add: joined_def)
  have "split_slash ''..'' = [''..'']" by simp
  then have "norm_segments False joined = butlast bs"
    using seg norm_step_pop[OF bs] by (simp add: rev_tl_rev)
  then show ?thesis using res by simp
qed

lemma dotdot_kept: "strip_dotdot (path_normalize ''..'') = ''..''"
  by (simp add: path_normalize_def normalizeString_def norm_segments_def norm_step_def Let_def)

lemma example_outside:
  "\<not> within_root (abs_path [''app'', ''temp'', ''pkg''])
       (path_resolve ''/app'' (path_join (abs_path [''app'', ''temp'', ''pkg''])
          (strip_dotdot (path_normalize ''..''))))"
proof -
  have g: "\<forall>s\<in>set [''app'', ''temp'', ''pkg'']. good_segment s" by (simp add: good_segment_def)
  have g2: "\<forall>s\<in>set [''app'', ''temp'']. good_segment s" by (simp add: good_segment_def)
  have r: "path_resolve ''/app'' (path_join (abs_path [''app'', ''temp'', ''pkg''])
          (strip_dotdot (path_normalize ''..''))) = abs_path [''app'', ''temp'']"
    unfolding dotdot_kept dotdot_parent[OF g] by simp
  show ?thesis
    unfolding r within_root_def norm_segments_abs[OF g] norm_segments_abs[OF g2] by simp
qed

lemma example_cwd: "cwd example_world = ''/app''"
  by (simp add: example_world_def)

lemma example_sdk_message: "sdk_message example_world = example_sdk"
  by (simp add: example_world_def)

lemma example_listed:
  "filter listed_entry (entries_under example_tree)
     = [([''lib'', ''b.js''], File ''B''), ([''a.js''], File ''A''), ([''README.md''], File ''R''),
        ([''node_modules'', ''dep.js''], File ''D''), ([''locked.ts''], Unreadable ''EACCES'')]"
  unfolding example_entries by (simp add: listed_entry_def startsWith_def)

lemma example_sorted:
  "sort [''lib/b.js'', ''a.js'', ''README.md'', ''node_modules/dep.js'', ''locked.ts'']
     = [''README.md'', ''a.js'', ''lib/b.js'', ''locked.ts'', ''node_modules/dep.js'']"
  by (simp add: less_eq_char_def less_char_def)

lemma example_fileList:
  "fileList_of ''/app'' example_fs (abs_path [''app'', ''temp'', ''pkg''])
     = [''README.md'', ''a.js'', ''lib/b.js'', ''locked.ts'', ''node_modules/dep.js'']"
  unfolding fileList_of_tree[OF example_root_good example_node example_tree_wf] example_listed
  using example_sorted by simp

lemma example_extensions:
  "toLowerCase (path_extname ''b.js'') = ''.js''"
  "toLowerCase (path_extname ''a.js'') = ''.js''"
  "toLowerCase (path_extname ''dep.js'') = ''.js''"
  "toLowerCase (path_extname ''README.md'') = ''.md''"
  "toLowerCase (path_extname ''ci.yml'') = ''.yml''"
  "toLowerCase (path_extname ''locked.ts'') = ''.ts''"
  "toLowerCase (path_extname ''lib'') = []"
  "toLowerCase (path_extname ''.github'') = []"
  "toLowerCase (path_extname ''node_modules'') = []"
  by (simp_all add: path_extname_def last_component_def toLowerCase_def lower_char_def Let_def)

lemma example_code_files:
  "findCodeFiles example_fs (abs_path [''app'', ''temp'', ''pkg''])
     = [\<lparr>cf_path = ''/app/temp/pkg/lib/b.js'', cf_content = ''B''\<rparr>,
        \<lparr>cf_path = ''/app/temp/pkg/a.js'', cf_content = ''A''\<rparr>]"
  unfolding findCodeFiles_def example_node option.case
    walk_code_emit(1)[OF refl example_root_good example_tree_wf] example_entries
  by (simp add: emit_code_def code_entry_def isCodeFile_explicit shouldSkipDirectory_explicit
        example_extensions abs_path_def)


text \<open>
  Claim C3 at a path traversal attempt. \<^verbatim>\<open>getSpecificFile\<close> throws the error with the tag
  \<open>InvalidParams\<close>, but the \<^verbatim>\<open>catch\<close> of \<^verbatim>\<open>getNpmPackageCode\<close> wraps whatever was thrown in its
  \<^verbatim>\<open>try\<close> block into a new error tagged \<open>InternalError\<close>: the caller of
  \<^verbatim>\<open>get_npm_package_code\<close> sees the traversal attempt as an internal failure.
\<close>

theorem getNpmPackageCode_traversal_tag:
  "snd (getSpecificFile example_sdk ''/app'' example_fs ''/app/temp/pkg'' ''..'')
     = Inl (McpError InvalidParams
          ''Invalid file path: MCP error -32602: Access denied: Path traversal attempt detected'') \<and>
   getNpmPackageCode example_world
       \<lparr>gc_packageName = ''pkg'', gc_version = None, gc_filePath = Some ''..''\<rparr>
     = Inl (McpError InternalError
          ''Failed to fetch package code: MCP error -32602: Invalid file path: MCP error -32602: Access denied: Path traversal attempt detected'')"
proof -
  have v: "validateAndResolvePath ''/app'' (abs_path [''app'', ''temp'', ''pkg'']) ''..''
      = Inl (McpError InvalidParams ''Access denied: Path traversal attempt detected'')"
    using example_root_good example_outside by (rule rejected_outside)
  have f: "getSpecificFile example_sdk ''/app'' example_fs (abs_path [''app'', ''temp'', ''pkg'']) ''..''
      = ([], Inl (McpError InvalidParams
          ''Invalid file path: MCP error -32602: Access denied: Path traversal attempt detected''))"
    unfolding getSpecificFile_def v by (simp add: example_sdk_def)
  have p: "package_code_attempt example_world
       \<lparr>gc_packageName = ''pkg'', gc_version = None, gc_filePath = Some ''..''\<rparr>
     = Inl (McpError InvalidParams
          ''Invalid file path: MCP error -32602: Access denied: Path traversal attempt detected'')"
    unfolding package_code_attempt_def
    by (simp add: example_info example_download example_cwd example_sdk_message f truthy_def)
  have n: "getNpmPackageCode example_world
       \<lparr>gc_packageName = ''pkg'', gc_version = None, gc_filePath = Some ''..''\<rparr>
     = Inl (McpError InternalError
          ''Failed to fetch package code: MCP error -32602: Invalid file path: MCP error -32602: Access denied: Path traversal attempt detected'')"
    unfolding getNpmPackageCode_def
    by (simp add: example_validate p example_sdk_message truthy_def example_sdk_def)
  from f n show ?thesis unfolding example_root_path by simp
qed

text \<open>
  Claim C6 on the example.
\<close>

theorem listPackageFiles_listing_witness:
  "validatePackageName ''pkg'' = Inr () \<and>
   tempDir example_world = ''/app/temp'' \<and>
   node_at example_fs (extractPath_of (tempDir example_world) ''pkg'') = Some example_tree \<and>
   wf_tree example_tree \<and>
   (\<exists>fileList.
      listPackageFiles example_world \<lparr>lf_packageName = ''pkg'', lf_version = None\<rparr>
        = Inr (''Package: pkg@1.0.0'' @ [NEWLINE]
               @ ''Total files: '' @ show_nat (length fileList) @ [NEWLINE, NEWLINE]
               @ ''Files:'' @ [NEWLINE] @ js_join [NEWLINE] fileList) \<and>
      sorted fileList \<and> distinct fileList \<and>
      set fileList = {js_join ''/'' p | p n. (p, n) \<in> set (entries_under example_tree) \<and>
                        ((\<exists>c. n = File c) \<or> (\<exists>m. n = Unreadable m)) \<and>
                        (\<forall>dir\<in>set (butlast p). \<not> (\<exists>r. dir = CHR ''.'' # r))})"
proof -
  let ?args = "\<lparr>lf_packageName = ''pkg'', lf_version = None\<rparr>"
  let ?info = "\<lparr>pi_name = ''pkg'', pi_version = ''1.0.0'',
            pi_dist = Some \<lparr>tarball = ''https://registry.example/pkg.tgz'', shasum = ''0''\<rparr>,
            pi_description = None\<rparr>"
  let ?d = "\<lparr>tarball = ''https://registry.example/pkg.tgz'', shasum = ''0''\<rparr>"
  have 1: "validatePackageName (lf_packageName ?args) = Inr ()" using example_validate by simp
  have 2: "fetchPackageInfo example_world (lf_packageName ?args) (lf_version ?args) = Inr ?info"
    using example_info by simp
  have 3: "pi_dist ?info = Some ?d" by simp
  have 5: "list_all good_segment [''app'', ''temp'']" by (simp add: good_segment_def)
  have 6: "download example_world (tarball ?d) (extractPath_of (tempDir example_world) (lf_packageName ?args))
             = Inr example_fs"
    by (simp add: example_world_def)
  have 7: "node_at example_fs (extractPath_of (tempDir example_world) (lf_packageName ?args))
             = Some example_tree"
    using example_node unfolding example_extract[symmetric] by simp
  note t = listPackageFiles_listing[OF 1 2 3 example_temp 5 6 7 example_tree_wf]
  have a: "abs_path [''app'', ''temp''] = ''/app/temp''" by (simp add: abs_path_def)
  have n: "node_at example_fs (extractPath_of (tempDir example_world) ''pkg'') = Some example_tree"
    using 7 by simp
  have e: "tempDir example_world = ''/app/temp''" unfolding example_temp a ..
  from t have "\<exists>fileList.
      listPackageFiles example_world \<lparr>lf_packageName = ''pkg'', lf_version = None\<rparr>
        = Inr (''Package: pkg@1.0.0'' @ [NEWLINE]
               @ ''Total files: '' @ show_nat (length fileList) @ [NEWLINE, NEWLINE]
               @ ''Files:'' @ [NEWLINE] @ js_join [NEWLINE] fileList) \<and>
      sorted fileList \<and> distinct fileList \<and>
      set fileList = {js_join ''/'' p | p n. (p, n) \<in> set (entries_under example_tree) \<and>
                        ((\<exists>c. n = File c) \<or> (\<exists>m. n = Unreadable m)) \<and>
                        (\<forall>dir\<in>set (butlast p). \<not> (\<exists>r. dir = CHR ''.'' # r))}"
    by simp
  with example_validate e n example_tree_wf show ?thesis by (intro conjI)
qed

text \<open>
  The claim as first stated fails: the regular file \<^verbatim>\<open>.github/ci.yml\<close> lies under the
  extraction root and is not in the listing, which counts five files.
\<close>

theorem listPackageFiles_dot_directory_counterexample:
  "node_at example_fs ''/app/temp/pkg/.github/ci.yml'' = Some (File ''C'') \<and>
   extractPath_of (tempDir example_world) ''pkg'' = ''/app/temp/pkg'' \<and>
   listPackageFiles example_world \<lparr>lf_packageName = ''pkg'', lf_version = None\<rparr>
     = Inr (''Package: pkg@1.0.0'' @ [NEWLINE] @ ''Total files: 5'' @ [NEWLINE, NEWLINE]
            @ ''Files:'' @ [NEWLINE] @ ''README.md'' @ [NEWLINE] @ ''a.js'' @ [NEWLINE]
            @ ''lib/b.js'' @ [NEWLINE] @ ''locked.ts'' @ [NEWLINE] @ ''node_modules/dep.js'')"
proof -
  have g: "\<forall>s\<in>set [''app'', ''temp'', ''pkg'', ''.github'', ''ci.yml'']. good_segment s"
    by (simp add: good_segment_def)
  have "node_at example_fs (abs_path [''app'', ''temp'', ''pkg'', ''.github'', ''ci.yml''])
          = Some (File ''C'')"
    unfolding node_at_def norm_segments_abs[OF g] by (simp add: example_fs_def example_tree_def)
  then have 1: "node_at example_fs ''/app/temp/pkg/.github/ci.yml'' = Some (File ''C'')"
    by (simp add: abs_path_def)
  have 2: "extractPath_of (tempDir example_world) ''pkg'' = ''/app/temp/pkg''"
    unfolding example_extract example_root_path ..
  have l: "list_files_attempt example_world \<lparr>lf_packageName = ''pkg'', lf_version = None\<rparr>
      = Inr (listing_text ''pkg'' ''1.0.0''
               [''README.md'', ''a.js'', ''lib/b.js'', ''locked.ts'', ''node_modules/dep.js''])"
    unfolding list_files_attempt_def
    by (simp add: example_info example_download example_cwd example_fileList)
  have 3: "listPackageFiles example_world \<lparr>lf_packageName = ''pkg'', lf_version = None\<rparr>
     = Inr (''Package: pkg@1.0.0'' @ [NEWLINE] @ ''Total files: 5'' @ [NEWLINE, NEWLINE]
            @ ''Files:'' @ [NEWLINE] @ ''README.md'' @ [NEWLINE] @ ''a.js'' @ [NEWLINE]
            @ ''lib/b.js'' @ [NEWLINE] @ ''locked.ts'' @ [NEWLINE] @ ''node_modules/dep.js'')"
    unfolding listPackageFiles_def
    by (simp add: example_validate l truthy_def listing_text_def)
  from 1 2 3 show ?thesis by (intro conjI)
qed

text \<open>
  Claim C8 on the example: two files are collected.
\<close>

theorem findCodeFiles_collects_witness:
  "list_all good_segment [''app'', ''temp'', ''pkg''] \<and>
   node_at example_fs ''/app/temp/pkg'' = Some example_tree \<and> wf_tree example_tree \<and>
   findCodeFiles example_fs ''/app/temp/pkg''
     = [\<lparr>cf_path = ''/app/temp/pkg/lib/b.js'', cf_content = ''B''\<rparr>,
        \<lparr>cf_path = ''/app/temp/pkg/a.js'', cf_content = ''A''\<rparr>] \<and>
   {\<lparr>cf_path = abs_path ([''app'', ''temp'', ''pkg''] @ p), cf_content = c\<rparr> | p c.
      (p, File c) \<in> set (entries_under example_tree) \<and>
      toLowerCase (path_extname (last p))
        \<in> {''.js'', ''.ts'', ''.jsx'', ''.tsx'', ''.mjs'', ''.cjs'', ''.json''} \<and>
      (\<forall>dir\<in>set (butlast p).
         \<not> ((\<exists>r. dir = CHR ''.'' # r) \<or>
            dir \<in> {''.git'', ''.svn'', ''.hg'', ''node_modules'', ''.DS_Store'', ''__pycache__''}))}
     = {\<lparr>cf_path = ''/app/temp/pkg/lib/b.js'', cf_content = ''B''\<rparr>,
        \<lparr>cf_path = ''/app/temp/pkg/a.js'', cf_content = ''A''\<rparr>}"
proof -
  note t = findCodeFiles_collects[OF example_root_good example_node example_tree_wf]
  have s: "set (findCodeFiles example_fs (abs_path [''app'', ''temp'', ''pkg'']))
     = {\<lparr>cf_path = ''/app/temp/pkg/lib/b.js'', cf_content = ''B''\<rparr>,
        \<lparr>cf_path = ''/app/temp/pkg/a.js'', cf_content = ''A''\<rparr>}"
    unfolding example_code_files by simp
  have c: "{\<lparr>cf_path = abs_path ([''app'', ''temp'', ''pkg''] @ p), cf_content = c\<rparr> | p c.
      (p, File c) \<in> set (entries_under example_tree) \<and>
      toLowerCase (path_extname (last p))
        \<in> {''.js'', ''.ts'', ''.jsx'', ''.tsx'', ''.mjs'', ''.cjs'', ''.json''} \<and>
      (\<forall>dir\<in>set (butlast p).
         \<not> ((\<exists>r. dir = CHR ''.'' # r) \<or>
            dir \<in> {''.git'', ''.svn'', ''.hg'', ''node_modules'', ''.DS_Store'', ''__pycache__''}))}
     = {\<lparr>cf_path = ''/app/temp/pkg/lib/b.js'', cf_content = ''B''\<rparr>,
        \<lparr>cf_path = ''/app/temp/pkg/a.js'', cf_content = ''A''\<rparr>}"
    unfolding t[symmetric] by (rule s)
  from example_root_good example_node example_tree_wf example_code_files c
  show ?thesis unfolding example_root_path by (intro conjI)
qed

text \<open>
  The claim as first stated fails: \<^verbatim>\<open>locked.ts\<close> is a regular file at the top of the root
  with the extension \<^verbatim>\<open>.ts\<close>, and the walk does not collect it, since it cannot be read.
\<close>

theorem findCodeFiles_unreadable_counterexample:
  "node_at example_fs ''/app/temp/pkg/locked.ts'' = Some (Unreadable ''EACCES'') \<and>
   is_file (Unreadable ''EACCES'') \<and>
   toLowerCase (path_extname ''locked.ts'') = ''.ts'' \<and>
   map cf_path (findCodeFiles example_fs ''/app/temp/pkg'')
     = [''/app/temp/pkg/lib/b.js'', ''/app/temp/pkg/a.js'']"
proof -
  have g: "\<forall>s\<in>set [''app'', ''temp'', ''pkg'', ''locked.ts'']. good_segment s"
    by (simp add: good_segment_def)
  have "node_at example_fs (abs_path [''app'', ''temp'', ''pkg'', ''locked.ts''])
          = Some (Unreadable ''EACCES'')"
    unfolding node_at_def norm_segments_abs[OF g] by (simp add: example_fs_def example_tree_def)
  then have 1: "node_at example_fs ''/app/temp/pkg/locked.ts'' = Some (Unreadable ''EACCES'')"
    by (simp add: abs_path_def)
  have 2: "map cf_path (findCodeFiles example_fs ''/app/temp/pkg'')
     = [''/app/temp/pkg/lib/b.js'', ''/app/temp/pkg/a.js'']"
    unfolding example_root_path[symmetric] example_code_files by simp
  from 1 2 example_extensions(6) show ?thesis by simp
qed

end
